theory Spec2Isabelle
  imports Complex_Main "HOL-Library.Multiset"
begin

section \<open>Strings\<close>

text \<open>
  The clipper works on JavaScript strings and numbers.  A string is modelled as a list of
  \<^typ>\<open>char\<close>, one element per code unit, which covers the code units below 256;
  \<open>length\<close>, \<open>take\<close> and \<open>drop\<close> are then \<open>.length\<close> and \<open>.substring\<close>.
  Numbers are modelled as \<^typ>\<open>real\<close>: arithmetic is exact, so rounding of IEEE doubles is
  not part of the model.
\<close>

abbreviation NL :: char where "NL \<equiv> CHR 0x0A"
abbreviation DQ :: char where "DQ \<equiv> CHR 0x22"
abbreviation SQ :: char where "SQ \<equiv> CHR 0x27"

text \<open>The class \<open>\s\<close>, which is also what \<open>String.prototype.trim\<close> strips.\<close>

definition is_space :: "char \<Rightarrow> bool" where
  "is_space c \<longleftrightarrow> c \<in> set [CHR 0x09, CHR 0x0A, CHR 0x0B, CHR 0x0C, CHR 0x0D, CHR 0x20, CHR 0xA0]"

definition is_digit :: "char \<Rightarrow> bool" where
  "is_digit c \<longleftrightarrow> c \<in> set ''0123456789''"

definition is_word_char :: "char \<Rightarrow> bool" where
  "is_word_char c \<longleftrightarrow>
     c \<in> set ''abcdefghijklmnopqrstuvwxyzABCDEFGHIJKLMNOPQRSTUVWXYZ0123456789_''"

text \<open>The sentence terminators of every pattern in the clipper: \<open>[.!?]\<close>.\<close>

definition is_terminator :: "char \<Rightarrow> bool" where
  "is_terminator c \<longleftrightarrow> c \<in> set ''.!?''"

text \<open>
  \<open>toLowerCase\<close> on code units below 256.  A capital letter has the bits \<open>010xxxxx\<close>
  (\<open>A\<close> to \<open>Z\<close>: the low five bits from 1 to 26) or \<open>110xxxxx\<close> (the capitals of
  Latin-1, \<open>0xC0\<close> to \<open>0xDE\<close> without the multiplication sign \<open>0xD7\<close>: the low five bits
  from 0 to 30 without 23), and its small letter is 32 further, which sets bit 5.
\<close>

fun lower :: "char \<Rightarrow> char" where
  "lower (Char b0 b1 b2 b3 b4 b5 b6 b7) =
     (if \<not> b5 \<and> b6 \<and>
         ((\<not> b7 \<and> (b0 \<or> b1 \<or> b2 \<or> b3 \<or> b4) \<and> \<not> (b4 \<and> b3 \<and> (b2 \<or> (b1 \<and> b0))))
          \<or> (b7 \<and> \<not> (b0 \<and> b1 \<and> b2 \<and> b3 \<and> b4) \<and> \<not> (b0 \<and> b1 \<and> b2 \<and> \<not> b3 \<and> b4)))
      then Char b0 b1 b2 b3 b4 True b6 b7
      else Char b0 b1 b2 b3 b4 b5 b6 b7)"

definition toLowerCase :: "string \<Rightarrow> string" where
  "toLowerCase s = map lower s"

definition trim :: "string \<Rightarrow> string" where
  "trim s = rev (dropWhile is_space (rev (dropWhile is_space s)))"

primrec starts_with :: "string \<Rightarrow> string \<Rightarrow> bool" where
  "starts_with s [] = True"
| "starts_with s (c # t) = (case s of [] \<Rightarrow> False | d # s' \<Rightarrow> d = c \<and> starts_with s' t)"

text \<open>\<open>s.includes(t)\<close>\<close>

primrec includes_str :: "string \<Rightarrow> string \<Rightarrow> bool" where
  "includes_str [] t = (t = [])"
| "includes_str (c # s) t = (starts_with (c # s) t \<or> includes_str s t)"

text \<open>\<open>s.indexOf(t)\<close>, with \<open>None\<close> for \<open>-1\<close>.\<close>

primrec indexOf :: "string \<Rightarrow> string \<Rightarrow> nat option" where
  "indexOf [] t = (if t = [] then Some 0 else None)"
| "indexOf (c # s) t =
     (if starts_with (c # s) t then Some 0 else map_option Suc (indexOf s t))"

text \<open>\<open>xs.join(' ')\<close>\<close>

fun join_space :: "string list \<Rightarrow> string" where
  "join_space [] = []"
| "join_space [x] = x"
| "join_space (x # y # ys) = x @ '' '' @ join_space (y # ys)"

section \<open>Regular expressions\<close>

text \<open>
  The patterns of the clipper are written as terms of a small regular-expression type and
  run by a backtracking matcher that returns its results in the order in which the
  JavaScript engine tries them: the first result is the match JavaScript reports.  The
  flag \<open>ci\<close> is the \<open>i\<close> flag of a pattern.  A character set is a list of
  characters, one of the classes \<open>\s\<close>, \<open>\d\<close>, \<open>\w\<close>, the dot with and without the
  \<open>s\<close> flag (\<open>AnyCh\<close>, \<open>Dot\<close>), a complement or a union.
\<close>

datatype cset =
    Chars string
  | Space
  | Digit
  | WordCh
  | AnyCh
  | Dot
  | Except cset
  | Either cset cset

fun in_cset :: "bool \<Rightarrow> cset \<Rightarrow> char \<Rightarrow> bool" where
  "in_cset ci (Chars cs) c = (if ci then lower c \<in> set (map lower cs) else c \<in> set cs)"
| "in_cset ci Space c = is_space c"
| "in_cset ci Digit c = is_digit c"
| "in_cset ci WordCh c = is_word_char c"
| "in_cset ci AnyCh c = True"
| "in_cset ci Dot c = (c \<noteq> NL \<and> c \<noteq> CHR 0x0D)"
| "in_cset ci (Except cs) c = (\<not> in_cset ci cs c)"
| "in_cset ci (Either a b) c = (in_cset ci a c \<or> in_cset ci b c)"

datatype re =
    Sym cset
  | Eps
  | Seq re re
  | Alt re re
  | Star re
  | LazyStar re
  | Grp nat re
  | Bos
  | Eos
  | WordB

text \<open>
  A matcher state: the character before the current position (\<open>None\<close> at the start of the
  input), the rest of the input, and the capture groups closed so far (latest first).
\<close>

type_synonym mstate = "char option \<times> string \<times> (nat \<times> string) list"

definition at_word_boundary :: "char option \<Rightarrow> string \<Rightarrow> bool" where
  "at_word_boundary p s \<longleftrightarrow>
     (case p of None \<Rightarrow> False | Some c \<Rightarrow> is_word_char c)
       \<noteq> (case s of [] \<Rightarrow> False | c # _ \<Rightarrow> is_word_char c)"

function bt :: "bool \<Rightarrow> re \<Rightarrow> mstate \<Rightarrow> mstate list" where
  "bt ci (Sym cs) (p, s, g) =
     (case s of [] \<Rightarrow> [] | a # s' \<Rightarrow> if in_cset ci cs a then [(Some a, s', g)] else [])"
| "bt ci Eps st = [st]"
| "bt ci (Seq r1 r2) st = concat (map (bt ci r2) (bt ci r1 st))"
| "bt ci (Alt r1 r2) st = bt ci r1 st @ bt ci r2 st"
| "bt ci (Star r) (p, s, g) =
     concat (map (\<lambda>st'. if length (fst (snd st')) < length s then bt ci (Star r) st' else [])
                 (bt ci r (p, s, g))) @ [(p, s, g)]"
| "bt ci (LazyStar r) (p, s, g) =
     (p, s, g) #
     concat (map (\<lambda>st'. if length (fst (snd st')) < length s then bt ci (LazyStar r) st' else [])
                 (bt ci r (p, s, g)))"
| "bt ci (Grp n r) (p, s, g) =
     map (\<lambda>st'. (fst st', fst (snd st'),
                 (n, take (length s - length (fst (snd st'))) s) # snd (snd st')))
         (bt ci r (p, s, g))"
| "bt ci Bos (p, s, g) = (if p = None then [(p, s, g)] else [])"
| "bt ci Eos (p, s, g) = (if s = [] then [(p, s, g)] else [])"
| "bt ci WordB (p, s, g) = (if at_word_boundary p s then [(p, s, g)] else [])"
  by pat_completeness auto
termination
  by (relation "measures [\<lambda>(ci, r, st). size r, \<lambda>(ci, r, st). length (fst (snd st))]") auto

text \<open>Derived forms.\<close>

definition Plus :: "re \<Rightarrow> re" where "Plus r = Seq r (Star r)"
definition LazyPlus :: "re \<Rightarrow> re" where "LazyPlus r = Seq r (LazyStar r)"
definition Opt :: "re \<Rightarrow> re" where "Opt r = Alt r Eps"

primrec Str :: "string \<Rightarrow> re" where
  "Str [] = Eps"
| "Str (c # cs) = Seq (Sym (Chars [c])) (Str cs)"

fun Alts :: "re list \<Rightarrow> re" where
  "Alts [] = Eps"
| "Alts [r] = r"
| "Alts (r # rs) = Alt r (Alts rs)"

fun Seqs :: "re list \<Rightarrow> re" where
  "Seqs [] = Eps"
| "Seqs [r] = r"
| "Seqs (r # rs) = Seq r (Seqs rs)"

definition AltStrs :: "string list \<Rightarrow> re" where
  "AltStrs ws = Alts (map Str ws)"

text \<open>
  A match as \<open>exec\<close> reports it: its index, the matched text and the capture groups.
\<close>

record rmatch =
  m_index :: nat
  m_text :: string
  m_groups :: "(nat \<times> string) list"

definition group :: "rmatch \<Rightarrow> nat \<Rightarrow> string option" where
  "group m n = map_of (m_groups m) n"

definition match_here :: "bool \<Rightarrow> re \<Rightarrow> nat \<Rightarrow> char option \<Rightarrow> string \<Rightarrow> rmatch option" where
  "match_here ci r i p s =
     (case bt ci r (p, s, []) of
        [] \<Rightarrow> None
      | st # _ \<Rightarrow> Some \<lparr>m_index = i, m_text = take (length s - length (fst (snd st))) s,
                        m_groups = snd (snd st)\<rparr>)"

text \<open>The first match at or after the current position (a pattern without the \<open>g\<close> flag).\<close>

fun search_from :: "bool \<Rightarrow> re \<Rightarrow> nat \<Rightarrow> char option \<Rightarrow> string \<Rightarrow> rmatch option" where
  "search_from ci r i p [] = match_here ci r i p []"
| "search_from ci r i p (a # s) =
     (case match_here ci r i p (a # s) of
        Some m \<Rightarrow> Some m
      | None \<Rightarrow> search_from ci r (Suc i) (Some a) s)"

definition re_search :: "bool \<Rightarrow> re \<Rightarrow> string \<Rightarrow> rmatch option" where
  "re_search ci r s = search_from ci r 0 None s"

definition re_test :: "bool \<Rightarrow> re \<Rightarrow> string \<Rightarrow> bool" where
  "re_test ci r s \<longleftrightarrow> re_search ci r s \<noteq> None"

text \<open>
  All matches of a pattern with the \<open>g\<close> flag (\<open>matchAll\<close>, \<open>match\<close>): after a match the scan
  resumes at its end, and one position further after an empty match.  The counter \<open>k\<close> is
  the number of characters still covered by the previous match.
\<close>

fun scan_all :: "bool \<Rightarrow> re \<Rightarrow> nat \<Rightarrow> nat \<Rightarrow> char option \<Rightarrow> string \<Rightarrow> rmatch list" where
  "scan_all ci r k i p [] =
     (if k = 0 then (case match_here ci r i p [] of None \<Rightarrow> [] | Some m \<Rightarrow> [m]) else [])"
| "scan_all ci r k i p (a # s) =
     (if 0 < k then scan_all ci r (k - 1) (Suc i) (Some a) s
      else (case match_here ci r i p (a # s) of
              None \<Rightarrow> scan_all ci r 0 (Suc i) (Some a) s
            | Some m \<Rightarrow> m # scan_all ci r (length (m_text m) - 1) (Suc i) (Some a) s))"

definition match_all :: "bool \<Rightarrow> re \<Rightarrow> string \<Rightarrow> rmatch list" where
  "match_all ci r s = scan_all ci r 0 0 None s"

text \<open>
  \<open>s.split(r)\<close> for a pattern without groups whose matches are not empty: the pieces
  of \<open>s\<close> before, between and after the matches.  The argument \<open>i\<close> is the index where
  the rest \<open>s\<close> starts.
\<close>

fun pieces :: "nat \<Rightarrow> rmatch list \<Rightarrow> string \<Rightarrow> string list" where
  "pieces i [] s = [s]"
| "pieces i (m # ms) s =
     take (m_index m - i) s
       # pieces (m_index m + length (m_text m)) ms (drop (m_index m + length (m_text m) - i) s)"

definition re_split :: "bool \<Rightarrow> re \<Rightarrow> string \<Rightarrow> string list" where
  "re_split ci r s = pieces 0 (match_all ci r s) s"

text \<open>
  \<open>s.split(/\s+/)\<close>: a run of white space at either end leaves an empty piece there, and
  the empty string gives one empty piece.
\<close>

definition split_ws :: "string \<Rightarrow> string list" where
  "split_ws s = re_split False (Plus (Sym Space)) s"

definition word_count :: "string \<Rightarrow> nat" where
  "word_count s = length (split_ws s)"

text \<open>\<open>s.match(/[^.!?]+[.!?]+/g) || []\<close>\<close>

definition sentencePattern :: re where
  "sentencePattern = Seq (Plus (Sym (Except (Chars ''.!?'')))) (Plus (Sym (Chars ''.!?'')))"

definition sentences_of :: "string \<Rightarrow> string list" where
  "sentences_of s = map m_text (match_all False sentencePattern s)"

text \<open>
  \<open>Array.prototype.sort\<close> with a comparator is stable.  It is modelled by insertion sort,
  which gives the result of every stable sort whenever the comparator is a consistent
  ordering; \<open>cmp a b \<le> 0\<close> keeps \<open>a\<close> before \<open>b\<close>.
\<close>

fun insert_by :: "('a \<Rightarrow> 'a \<Rightarrow> real) \<Rightarrow> 'a \<Rightarrow> 'a list \<Rightarrow> 'a list" where
  "insert_by cmp x [] = [x]"
| "insert_by cmp x (y # ys) = (if cmp x y \<le> 0 then x # y # ys else y # insert_by cmp x ys)"

definition sort_by :: "('a \<Rightarrow> 'a \<Rightarrow> real) \<Rightarrow> 'a list \<Rightarrow> 'a list" where
  "sort_by cmp xs = foldr (insert_by cmp) xs []"

section \<open>Configuration and data model\<close>

text \<open>
  \<open>config/constants.js\<close>: the clip durations in seconds, at their defaults (each can be
  overridden by an environment variable of the same name).
\<close>

definition CLIP_MIN_DURATION :: real where "CLIP_MIN_DURATION = 8"
definition CLIP_MAX_DURATION :: real where "CLIP_MAX_DURATION = 30"
definition CLIP_IDEAL_DURATION :: real where "CLIP_IDEAL_DURATION = 15"

record impact =
  hasQuestion :: bool
  hasPowerfulWords :: bool
  hasNumbers :: bool
  impactBonus :: real

record viral =
  emotionalLanguage :: bool
  storyElement :: bool
  educationalValue :: bool
  curiosityHook :: bool

text \<open>
  A clip object.  The generators and selectors of the clipper build it with different sets
  of properties; a property that an object may lack is an \<open>option\<close>.  The properties
  \<open>text\<close> and \<open>end\<close> are named \<open>ctext\<close> and \<open>cend\<close>.  The bookkeeping properties
  \<open>sentenceGroup\<close> and \<open>utterances\<close>, which nothing reads, are left out.
\<close>

record clip =
  ctext :: string
  start :: real
  cend :: real
  duration :: real
  wordCount :: "nat option"
  sentenceCount :: "nat option"
  qualityScore :: "real option"
  impactFactors :: "impact option"
  endsWithCompleteSentence :: "bool option"
  viralScore :: "real option"
  viralElements :: "viral option"
  completeEnding :: "bool option"
  finalScore :: "real option"
  durationCategory :: "string option"
  reason :: "string option"
  targetAudience :: "string option"
  durationEffectiveness :: "string option"
  aiSelected :: "bool option"

definition new_clip :: "string \<Rightarrow> real \<Rightarrow> real \<Rightarrow> real \<Rightarrow> clip" where
  "new_clip t s e d =
     \<lparr>ctext = t, start = s, cend = e, duration = d, wordCount = None, sentenceCount = None,
      qualityScore = None, impactFactors = None, endsWithCompleteSentence = None,
      viralScore = None, viralElements = None, completeEnding = None, finalScore = None,
      durationCategory = None, reason = None, targetAudience = None,
      durationEffectiveness = None, aiSelected = None\<rparr>"

text \<open>Truthiness of an optional number, string and boolean.\<close>

definition truthy_num :: "real option \<Rightarrow> bool" where
  "truthy_num x \<longleftrightarrow> (case x of None \<Rightarrow> False | Some v \<Rightarrow> v \<noteq> 0)"

definition truthy_str :: "string option \<Rightarrow> bool" where
  "truthy_str x \<longleftrightarrow> (case x of None \<Rightarrow> False | Some v \<Rightarrow> v \<noteq> [])"


section \<open>Content type\<close>

definition phrases_of_length :: "string list \<Rightarrow> nat \<Rightarrow> string list" where
  "phrases_of_length ws n =
     map (\<lambda>i. toLowerCase (join_space (take n (drop i ws)))) [0 ..< length ws + 1 - n]"

text \<open>\<open>phraseCounts[phrase] = (phraseCounts[phrase] || 0) + 1\<close>, keys in insertion order.\<close>

fun bump :: "(string \<times> nat) list \<Rightarrow> string \<Rightarrow> (string \<times> nat) list" where
  "bump [] k = [(k, 1)]"
| "bump ((k', n) # kvs) k = (if k' = k then (k', n + 1) # kvs else (k', n) # bump kvs k)"

definition phraseCounts :: "string list \<Rightarrow> (string \<times> nat) list" where
  "phraseCounts ps = foldl bump [] ps"

definition repeated_of_length :: "string list \<Rightarrow> nat \<Rightarrow> (string \<times> nat) list" where
  "repeated_of_length ws n = filter (\<lambda>pc. 1 < snd pc) (phraseCounts (phrases_of_length ws n))"

definition findRepeatedPhrases :: "string \<Rightarrow> (string \<times> nat) list" where
  "findRepeatedPhrases t =
     sort_by (\<lambda>a b. real (snd b) - real (snd a))
       (concat (map (repeated_of_length (split_ws t)) [3 ..< 9]))"

definition musicKeywords :: re where
  "musicKeywords = Grp 1 (AltStrs [''chorus'', ''verse'', ''never gonna give you up'',
     ''lyrics'', ''singing'', ''song'', ''music'', ''beat'', ''melody'', ''rhyme''])"

definition educationalKeywords :: re where
  "educationalKeywords = Grp 1 (AltStrs [''learn'', ''teach'', ''strategy'', ''concept'',
     ''principle'', ''important'', ''key'', ''idea'', ''method'', ''technique'', ''framework'',
     ''step'', ''process'', ''solution''])"

definition interviewKeywords :: re where
  "interviewKeywords = Grp 1 (AltStrs [''interview'', ''question'', ''answer'', ''asked'',
     ''tell me about'', ''talk about'', ''discussed'', ''conversation''])"

definition detectContentType :: "string \<Rightarrow> string" where
  "detectContentType t =
     (if re_test True musicKeywords t \<or> 3 < length (findRepeatedPhrases t) then ''music''
      else if re_test True educationalKeywords t then ''educational''
      else if re_test True interviewKeywords t then ''interview''
      else ''generic'')"

section \<open>Candidate windows from the full text\<close>

definition powerfulWords :: re where
  "powerfulWords = Grp 1 (AltStrs [''amazing'', ''incredible'', ''never'', ''always'', ''best'',
     ''worst'', ''must'', ''essential'', ''critical'', ''vital'', ''key'', ''revolutionary'',
     ''game-changing'', ''mind-blowing''])"

definition numberWords :: re where
  "numberWords = Seqs [WordB, Grp 1 (AltStrs [''one'', ''two'', ''three'', ''four'', ''five'',
     ''ten'', ''1'', ''2'', ''3'', ''4'', ''5'', ''10'', ''hundred'', ''thousand'', ''million'',
     ''billion'']), WordB]"

text \<open>\<open>/[.!?][\s"']*$/\<close>\<close>

definition completeSentenceEnd :: re where
  "completeSentenceEnd =
     Seqs [Sym (Chars ''.!?''), Star (Sym (Either Space (Chars [DQ, SQ]))), Eos]"

definition durationQuality :: "real \<Rightarrow> real" where
  "durationQuality d = 1 - \<bar>d - CLIP_IDEAL_DURATION\<bar> / CLIP_IDEAL_DURATION"

definition impact_of :: "string \<Rightarrow> impact" where
  "impact_of t =
     (let q = includes_str t ''?'';
          p = re_test True powerfulWords t;
          n = re_test True numberWords t
      in \<lparr>hasQuestion = q, hasPowerfulWords = p, hasNumbers = n,
          impactBonus = (if q then 0.1 else 0) + (if p then 0.15 else 0) + (if n then 0.1 else 0)\<rparr>)"

definition sentenceCompletionBonus :: "bool \<Rightarrow> real" where
  "sentenceCompletionBonus b = (if b then 0.5 else 0)"

text \<open>
  One iteration of the inner loop of \<open>createPotentialClips\<close>, in three steps: the estimated
  start and end of the window, the test on its padded duration, and the clip object
  pushed when the test passes.
\<close>

definition estimatedTimes :: "real \<Rightarrow> nat \<Rightarrow> nat \<Rightarrow> real \<times> real" where
  "estimatedTimes timePerWord wordsSoFar wc =
     (let estimatedDuration = real wc * timePerWord;
          dynamicStartPadding = min 1.5 (max 0.5 (estimatedDuration * 0.05));
          dynamicEndPadding = min 2.5 (max 1.0 (estimatedDuration * 0.1));
          estimatedStartTime = max 0 (real wordsSoFar * timePerWord - dynamicStartPadding);
          estimatedEndTime = real wordsSoFar * timePerWord + estimatedDuration + dynamicEndPadding
      in (estimatedStartTime, estimatedEndTime))"

definition duration_allowed :: "real \<Rightarrow> bool" where
  "duration_allowed adjustedDuration \<longleftrightarrow>
     (let minDuration = max 5 (CLIP_MIN_DURATION * 0.7);
          maxDuration = min 60 (CLIP_MAX_DURATION * 1.5)
      in adjustedDuration \<ge> minDuration \<and> adjustedDuration \<le> maxDuration)"

definition text_score :: "real \<Rightarrow> string \<Rightarrow> real" where
  "text_score adjustedDuration t =
     durationQuality adjustedDuration + impactBonus (impact_of t)
       + sentenceCompletionBonus (re_test False completeSentenceEnd (trim t))"

definition pushed_clip :: "string \<Rightarrow> nat \<Rightarrow> nat \<Rightarrow> real \<Rightarrow> real \<Rightarrow> clip" where
  "pushed_clip t wc sentencesPerGroup estimatedStartTime estimatedEndTime =
     (let adjustedDuration = estimatedEndTime - estimatedStartTime
      in (new_clip t estimatedStartTime estimatedEndTime adjustedDuration)
           \<lparr>wordCount := Some wc, sentenceCount := Some sentencesPerGroup,
            qualityScore := Some (text_score adjustedDuration t),
            impactFactors := Some (impact_of t),
            endsWithCompleteSentence := Some (re_test False completeSentenceEnd (trim t))\<rparr>)"

text \<open>
  The window of \<open>sentencesPerGroup\<close> sentences that starts at sentence \<open>i\<close>, or \<open>None\<close>
  when the iteration pushes nothing.
\<close>

definition window_clip :: "string list \<Rightarrow> real \<Rightarrow> nat \<Rightarrow> nat \<Rightarrow> clip option" where
  "window_clip sentences timePerWord sentencesPerGroup i =
     (let sentenceGroup = take sentencesPerGroup (drop i sentences);
          t = join_space sentenceGroup;
          wc = word_count t
      in if wc < 5 then None
         else
           let wordsSoFar = sum_list (map word_count (take i sentences));
               times = estimatedTimes timePerWord wordsSoFar wc
           in if duration_allowed (snd times - fst times)
              then Some (pushed_clip t wc sentencesPerGroup (fst times) (snd times))
              else None)"

definition windows_of_size :: "string list \<Rightarrow> real \<Rightarrow> nat \<Rightarrow> clip list" where
  "windows_of_size sentences timePerWord sentencesPerGroup =
     List.map_filter (window_clip sentences timePerWord sentencesPerGroup)
       [0 ..< length sentences + 1 - sentencesPerGroup]"

text \<open>
  The outer loop, from \<open>sentencesPerGroup\<close> down to 1, leaving once 150 clips are there.
\<close>

fun group_loop :: "string list \<Rightarrow> real \<Rightarrow> nat \<Rightarrow> clip list \<Rightarrow> clip list" where
  "group_loop sentences timePerWord 0 potentialClips = potentialClips"
| "group_loop sentences timePerWord (Suc n) potentialClips =
     (let potentialClips' = potentialClips @ windows_of_size sentences timePerWord (Suc n)
      in if 150 \<le> length potentialClips' then potentialClips'
         else group_loop sentences timePerWord n potentialClips')"

definition createPotentialClips :: "string list \<Rightarrow> real \<Rightarrow> string \<Rightarrow> clip list" where
  "createPotentialClips sentences timePerWord contentType =
     group_loop sentences timePerWord (if contentType = ''music'' then 7 else 6) []"

text \<open>
  \<open>identifyClipsFromFullText\<close> up to \<open>validatedClips\<close>, the candidates of the text path.
  The argument \<open>audio\<close> is \<open>transcriptData.audio_duration\<close>.
\<close>

definition timePerWord_of :: "string \<Rightarrow> real option \<Rightarrow> real" where
  "timePerWord_of transcriptText audio =
     (let totalWords = word_count transcriptText
      in case audio of
           None \<Rightarrow> 0.4
         | Some audioDuration \<Rightarrow>
             if audioDuration \<noteq> 0 \<and> 0 < totalWords then audioDuration / real totalWords
             else 0.4)"

definition maxTime_of :: "real option \<Rightarrow> real" where
  "maxTime_of audio =
     (case audio of
        None \<Rightarrow> 24 * 60 * 60
      | Some audioDuration \<Rightarrow> if audioDuration \<noteq> 0 then audioDuration else 24 * 60 * 60)"

definition validate_clip :: "real \<Rightarrow> clip \<Rightarrow> clip" where
  "validate_clip maxTime c =
     (let validatedStart = max 0 (min (start c) (maxTime - CLIP_MIN_DURATION * 0.7));
          validatedEnd = min maxTime (max (validatedStart + CLIP_MIN_DURATION * 0.7) (cend c))
      in c\<lparr>start := validatedStart, cend := validatedEnd,
            duration := validatedEnd - validatedStart\<rparr>)"

definition potentialClips_of :: "string \<Rightarrow> real option \<Rightarrow> clip list" where
  "potentialClips_of transcriptText audio =
     createPotentialClips (sentences_of transcriptText) (timePerWord_of transcriptText audio)
       (detectContentType transcriptText)"

definition validatedClips :: "string \<Rightarrow> real option \<Rightarrow> clip list" where
  "validatedClips transcriptText audio =
     map (validate_clip (maxTime_of audio)) (potentialClips_of transcriptText audio)"

section \<open>Candidate windows from utterances\<close>

text \<open>
  An utterance of the transcript, with its times in milliseconds; \<open>utext\<close>, \<open>ustart\<close> and
  \<open>uend\<close> are the properties \<open>text\<close>, \<open>start\<close> and \<open>end\<close>.
\<close>

record utterance =
  utext :: string
  ustart :: real
  uend :: real



definition terminatorRun :: re where
  "terminatorRun = Plus (Sym (Chars ''.!?''))"



definition count_sentences :: "string \<Rightarrow> nat" where
  "count_sentences t = length (match_all False terminatorRun t)"

definition emotionalLanguageRe :: re where
  "emotionalLanguageRe = AltStrs [''amazing'', ''incredible'', ''surprising'', ''shocking'',
     ''never'', ''always'', ''changed'', ''stunned'', ''realized'', ''discovered'',
     ''astonishing'', ''powerful'']"

definition storyElementRe :: re where
  "storyElementRe = AltStrs [''when'', ''there was'', ''once'', ''eventually'', ''at first'',
     ''finally'', ''ultimately'']"

definition educationalValueRe :: re where
  "educationalValueRe = AltStrs [''learn'', ''understand'', ''know'', ''explain'', ''how to'',
     ''works'', ''actually'', ''truth'', ''fact'', ''research'', ''found'',
     ''most people don'' @ [SQ] @ ''t'', ''realize'', ''secret'']"

definition curiosityHookRe :: re where
  "curiosityHookRe = AltStrs [''what if'', ''here'' @ [SQ] @ ''s why'', ''the truth about'',
     ''most people don'' @ [SQ] @ ''t know'', ''the secret to'', ''this is how'',
     ''you won'' @ [SQ] @ ''t believe'', ''the real reason'']"

definition viral_of :: "string \<Rightarrow> viral" where
  "viral_of t =
     \<lparr>emotionalLanguage = re_test True emotionalLanguageRe t,
      storyElement = re_test True storyElementRe t,
      educationalValue = re_test True educationalValueRe t,
      curiosityHook = re_test True curiosityHookRe t\<rparr>"

definition viralScore_of :: "viral \<Rightarrow> real" where
  "viralScore_of v =
     (if emotionalLanguage v then 0.15 else 0) + (if storyElement v then 0.15 else 0)
       + (if educationalValue v then 0.15 else 0) + (if curiosityHook v then 0.25 else 0)"


definition window_candidate :: "real \<Rightarrow> real \<Rightarrow> utterance list \<Rightarrow> clip" where
  "window_candidate windowStart windowEnd windowUtterances =
     (let adjustedDuration = windowEnd - windowStart;
          t = join_space (map utext windowUtterances);
          wc = word_count t;
          sc = count_sentences t;
          v = viral_of t
      in (new_clip t windowStart windowEnd adjustedDuration)
           \<lparr>wordCount := Some wc, sentenceCount := Some sc,
            qualityScore := Some (0.3 * (1 - \<bar>adjustedDuration - 15\<bar> / 15) + 0.1 * real sc
                                   + (real wc / adjustedDuration) / 5 + 0.5 * viralScore_of v),
            viralScore := Some (viralScore_of v), viralElements := Some v,
            completeEnding := Some True\<rparr>)"




section \<open>Basic clip identification\<close>






section \<open>Overlap resolution\<close>

text \<open>The value of an optional number that is known to be there.\<close>

definition num :: "real option \<Rightarrow> real" where
  "num x = (case x of None \<Rightarrow> 0 | Some v \<Rightarrow> v)"

text \<open>
  The comparator of \<open>analyzeClipsForQualityAndOverlap\<close>.  Each clip is paired with its
  position in \<open>clips\<close>, which is what \<open>clips.indexOf\<close> returns for it when the objects of
  \<open>clips\<close> are distinct.
\<close>

definition compare_clips :: "nat \<times> clip \<Rightarrow> nat \<times> clip \<Rightarrow> real" where
  "compare_clips ia jb =
     (let a = snd ia; b = snd jb
      in if truthy_num (qualityScore a) \<and> truthy_num (qualityScore b)
         then num (qualityScore b) - num (qualityScore a)
         else if truthy_str (reason a) \<and> \<not> truthy_str (reason b) then - 1
         else if \<not> truthy_str (reason a) \<and> truthy_str (reason b) then 1
         else real (fst ia) - real (fst jb))"

definition sortedClips :: "clip list \<Rightarrow> clip list" where
  "sortedClips clips = map snd (sort_by compare_clips (enumerate 0 clips))"

text \<open>
  The test of both \<open>finalClips.some\<close> and \<open>finalClips.find\<close>: the two clips share more
  than \<open>OVERLAP_THRESHOLD = 0.5\<close> of the shorter one.
\<close>

definition significant_overlap :: "clip \<Rightarrow> clip \<Rightarrow> bool" where
  "significant_overlap c existingClip \<longleftrightarrow>
     (let clipDuration = cend c - start c;
          existingDuration = cend existingClip - start existingClip;
          overlapStart = max (start c) (start existingClip);
          overlapEnd = min (cend c) (cend existingClip)
      in if overlapEnd \<le> overlapStart then False
         else (overlapEnd - overlapStart) / min clipDuration existingDuration > 0.5)"

fun replace_first :: "('a \<Rightarrow> bool) \<Rightarrow> 'a \<Rightarrow> 'a list \<Rightarrow> 'a list" where
  "replace_first P x [] = []"
| "replace_first P x (y # ys) = (if P y then x # ys else y # replace_first P x ys)"

definition better_by_20_percent :: "clip \<Rightarrow> clip \<Rightarrow> bool" where
  "better_by_20_percent c overlappingClip \<longleftrightarrow>
     truthy_num (qualityScore c) \<and> truthy_num (qualityScore overlappingClip)
       \<and> num (qualityScore c) > num (qualityScore overlappingClip) * 1.2"

text \<open>
  One iteration of the loop over \<open>sortedClips\<close>.  \<open>find\<close> returns the first clip of
  \<open>finalClips\<close> that passes the test and \<open>indexOf\<close> its position, so the \<open>splice\<close>
  replaces the first clip that passes the test.
\<close>

definition overlap_step :: "clip list \<Rightarrow> clip \<Rightarrow> clip list" where
  "overlap_step finalClips c =
     (case find (significant_overlap c) finalClips of
        None \<Rightarrow> finalClips @ [c]
      | Some overlappingClip \<Rightarrow>
          if better_by_20_percent c overlappingClip
          then replace_first (significant_overlap c) c finalClips
          else finalClips)"

definition analyzeClipsForQualityAndOverlap :: "clip list \<Rightarrow> clip list" where
  "analyzeClipsForQualityAndOverlap clips = foldl overlap_step [] (sortedClips clips)"



section \<open>Diverse selection\<close>

text \<open>
  The comparator \<open>(a, b) => b.score - a.score\<close>.  With a missing score the difference
  is \<open>NaN\<close>, which \<open>sort\<close> takes for 0.
\<close>

definition score_desc :: "real option \<Rightarrow> real option \<Rightarrow> real" where
  "score_desc a b = (case (a, b) of (Some x, Some y) \<Rightarrow> y - x | _ \<Rightarrow> 0)"










section \<open>Fallback selection\<close>

definition narrativeOpening :: re where
  "narrativeOpening = Seq Bos (Grp 1 (AltStrs [''when'', ''once'', ''there was'', ''i'', ''we'',
     ''they'', ''if you'', ''eventually'', ''at first'', ''finally'', ''ultimately'']))"

definition emotionalImpactRe :: re where
  "emotionalImpactRe = AltStrs [''amazing'', ''incredible'', ''surprising'', ''shocking'',
     ''mind-blowing'', ''never'', ''always'', ''changed'', ''stunned'',
     ''couldn'' @ [SQ] @ ''t believe'', ''realized'', ''discovered'', ''astonishing'',
     ''powerful'', ''transformative'', ''fascinating'']"

definition educationalRe :: re where
  "educationalRe = AltStrs [''learn'', ''understand'', ''know'', ''explain'', ''how to'',
     ''works'', ''actually'', ''truth'', ''fact'', ''study'', ''research'', ''found'',
     ''most people don'' @ [SQ] @ ''t'', ''realize'', ''secret'', ''technique'', ''method'',
     ''steps'']"

definition curiosityOpening :: re where
  "curiosityOpening = Seq Bos (Grp 1 (AltStrs [''what if'', ''here'' @ [SQ] @ ''s why'',
     ''the truth about'', ''most people don'' @ [SQ] @ ''t know'', ''the secret to'',
     ''this is how'', ''i never knew'', ''you won'' @ [SQ] @ ''t believe'',
     ''the real reason'']))"

definition contradictionRe :: re where
  "contradictionRe = AltStrs [''but'', ''however'', ''surprisingly'', ''instead'', ''contrary'',
     ''opposite'', ''unlike'', ''unexpected'', ''twist'', ''plot twist'', ''actually'',
     ''reality'', ''truth'']"

definition fallback_viralScore :: "string \<Rightarrow> real" where
  "fallback_viralScore clipText =
     (let t = toLowerCase clipText;
          emotionalImpact = length (match_all True emotionalImpactRe t);
          educationalValue = length (match_all True educationalRe t);
          wc = word_count t
      in (if re_test True narrativeOpening t \<and> 50 < length t then 0.3 else 0)
         + min 0.4 (real emotionalImpact * 0.1)
         + min 0.4 (real educationalValue * 0.1)
         + (if re_test True curiosityOpening t then 0.3 else 0)
         + (if re_test True contradictionRe t then 0.2 else 0)
         + (if 15 < wc \<and> wc < 50 then 0.2 else 0))"

definition category_of :: "real \<Rightarrow> string" where
  "category_of d =
     (if d < 10 then ''very_short''
      else if d < 20 then ''short''
      else if d < 30 then ''medium''
      else ''long'')"

definition viral_reason :: "real \<Rightarrow> string" where
  "viral_reason v =
     ''Selected for likely viral elements: '' @
     (if v > 0.5 then ''High viral potential''
      else if v > 0.3 then ''Moderate viral potential''
      else ''Potential interest elements'')"

definition score_for_fallback :: "clip \<Rightarrow> clip" where
  "score_for_fallback c =
     (let v = fallback_viralScore (ctext c);
          final = (if truthy_num (qualityScore c) then num (qualityScore c) * 0.4 + v * 0.6
                   else v)
      in c\<lparr>viralScore := Some v, finalScore := Some final,
            durationCategory := Some (category_of (duration c)),
            reason := Some (viral_reason v)\<rparr>)"

definition by_final :: "nat \<times> clip \<Rightarrow> nat \<times> clip \<Rightarrow> real" where
  "by_final a b = score_desc (finalScore (snd a)) (finalScore (snd b))"

text \<open>
  The scored clips are new objects, told apart by \<open>includes\<close> even when their properties
  agree; each is paired with its position in \<open>scoredClips\<close>.
\<close>

definition scoredClips :: "clip list \<Rightarrow> (nat \<times> clip) list" where
  "scoredClips filteredClips = enumerate 0 (map score_for_fallback filteredClips)"

definition categories :: "string list" where
  "categories = [''very_short'', ''short'', ''medium'', ''long'']"

definition clipsByDuration :: "(nat \<times> clip) list \<Rightarrow> (nat \<times> clip) list list" where
  "clipsByDuration scored =
     map (\<lambda>cat. sort_by by_final (filter (\<lambda>c. durationCategory (snd c) = Some cat) scored))
         categories"

text \<open>The top clip of every category that has one.\<close>

definition category_picks :: "(nat \<times> clip) list \<Rightarrow> (nat \<times> clip) list" where
  "category_picks scored =
     concat (map (\<lambda>clips. case clips of [] \<Rightarrow> [] | c # _ \<Rightarrow> [c]) (clipsByDuration scored))"

definition overlaps_40 :: "clip \<Rightarrow> clip \<Rightarrow> bool" where
  "overlaps_40 nextBestClip existingClip \<longleftrightarrow>
     (let timeOverlap = max 0 (min (cend nextBestClip) (cend existingClip)
                                - max (start nextBestClip) (start existingClip));
          shortestDuration = min (cend nextBestClip - start nextBestClip)
                                 (cend existingClip - start existingClip)
      in timeOverlap > shortestDuration * 0.4)"

text \<open>The \<open>while\<close> loop that tops the selection up from \<open>remainingClips\<close>.\<close>

fun top_up :: "(nat \<times> clip) list \<Rightarrow> (nat \<times> clip) list \<Rightarrow> (nat \<times> clip) list" where
  "top_up selectedClips [] = selectedClips"
| "top_up selectedClips (nextBestClip # remainingClips) =
     (if length selectedClips < 5
      then (if list_ex (\<lambda>existingClip. overlaps_40 (snd nextBestClip) (snd existingClip))
                       selectedClips
            then top_up selectedClips remainingClips
            else top_up (selectedClips @ [nextBestClip]) remainingClips)
      else selectedClips)"

definition fallback_selected :: "(nat \<times> clip) list \<Rightarrow> (nat \<times> clip) list" where
  "fallback_selected scored =
     (let selectedClips = category_picks scored
      in if 5 < length selectedClips then take 5 (sort_by by_final selectedClips)
         else if length selectedClips < 5
         then top_up selectedClips
                (sort_by by_final (filter (\<lambda>c. c \<notin> set selectedClips) scored))
         else selectedClips)"

definition fallbackClipSelection :: "clip list \<Rightarrow> clip list" where
  "fallbackClipSelection filteredClips =
     (if filteredClips = [] then []
      else map snd (fallback_selected (scoredClips filteredClips)))"

text \<open>The fallback selection before it is topped up: the top clip of every category.\<close>

definition fallback_picks :: "clip list \<Rightarrow> clip list" where
  "fallback_picks filteredClips = map snd (category_picks (scoredClips filteredClips))"

section \<open>Reading the reply of the language model\<close>

definition digit_value :: "char \<Rightarrow> nat" where
  "digit_value c = length (takeWhile (\<lambda>d. d \<noteq> c) ''0123456789'')"

text \<open>\<open>parseInt(s, 10)\<close> for a string of digits.\<close>

definition parseInt :: "string \<Rightarrow> nat" where
  "parseInt s = foldl (\<lambda>a c. 10 * a + digit_value c) 0 s"

text \<open>The decimal digits of a number, as a template literal prints it.\<close>

function show_nat :: "nat \<Rightarrow> string" where
  "show_nat n =
     (if n < 10 then [''0123456789'' ! n]
      else show_nat (n div 10) @ [''0123456789'' ! (n mod 10)])"
  by pat_completeness auto
termination
  by (relation "measure id") auto

declare show_nat.simps [simp del]

text \<open>
  \<open>/SELECTED(?:\s+)CLIP(?:\s+)(?:#|NUMBER)?(?:\s*):?\s*(\d+)/gi\<close> and
  \<open>/CLIP(?:\s+)(?:#|NUMBER)?(?:\s*):?\s*(\d+)/gi\<close>
\<close>

definition clipNumberRegex :: re where
  "clipNumberRegex =
     Seqs [Str ''CLIP'', Plus (Sym Space), Opt (Alt (Str ''#'') (Str ''NUMBER'')),
           Star (Sym Space), Opt (Str '':''), Star (Sym Space), Grp 1 (Plus (Sym Digit))]"

definition selectedClipRegex :: re where
  "selectedClipRegex = Seqs [Str ''SELECTED'', Plus (Sym Space), clipNumberRegex]"

text \<open>
  \<open>/(?:CLIP|SELECTION)\s*(?:\d+|#\d+).*?\n.*?VIRAL\s*POTENTIAL\s*:(.+?)(?:\n\n|\nTARGET|\Z)/gis\<close>,
  where the dot matches every character and \<open>\Z\<close> is the letter \<open>Z\<close>; and
  \<open>/(?:CLIP|SELECTION)\s*(?:#?\s*)?(\d+)/i\<close>.
\<close>

definition viralPotentialRegex :: re where
  "viralPotentialRegex =
     Seqs [Alt (Str ''CLIP'') (Str ''SELECTION''), Star (Sym Space),
           Alt (Plus (Sym Digit)) (Seq (Str ''#'') (Plus (Sym Digit))),
           LazyStar (Sym AnyCh), Str [NL], LazyStar (Sym AnyCh),
           Str ''VIRAL'', Star (Sym Space), Str ''POTENTIAL'', Star (Sym Space), Str '':'',
           Grp 1 (LazyPlus (Sym AnyCh)),
           Alts [Str [NL, NL], Str (NL # ''TARGET''), Str ''Z'']]"

definition clipNumberExtract :: re where
  "clipNumberExtract =
     Seqs [Alt (Str ''CLIP'') (Str ''SELECTION''), Star (Sym Space),
           Opt (Seq (Opt (Str ''#'')) (Star (Sym Space))), Grp 1 (Plus (Sym Digit))]"

text \<open>
  The three patterns for the sections of a selection.  Each captures lazily up to the next
  header it knows, a blank line before the end, or the end.
\<close>

definition section_end :: "string list \<Rightarrow> re" where
  "section_end headers =
     Alts (concat (map (\<lambda>h. [Str ([NL, NL] @ h), Str (NL # h)]) headers)
           @ [Seqs [Str [NL, NL], Star (Sym Space), Eos], Eos])"

definition potentialRegex :: re where
  "potentialRegex =
     Seqs [Str ''VIRAL'', Star (Sym Space), Str ''POTENTIAL'', Star (Sym Space), Opt (Str '':''),
           Star (Sym Space), Grp 1 (LazyPlus (Sym AnyCh)),
           section_end [''TARGET'', ''SELECTED'', ''DURATION'']]"

definition audienceRegex :: re where
  "audienceRegex =
     Seqs [Str ''TARGET'', Star (Sym Space), Str ''AUDIENCE'', Star (Sym Space), Opt (Str '':''),
           Star (Sym Space), Grp 1 (LazyPlus (Sym AnyCh)),
           section_end [''SELECTED'', ''DURATION'']]"

definition durationRegex :: re where
  "durationRegex =
     Seqs [Str ''DURATION'', Star (Sym Space), Str ''EFFECTIVENESS'', Star (Sym Space),
           Opt (Str '':''), Star (Sym Space), Grp 1 (LazyPlus (Sym AnyCh)),
           section_end [''SELECTED'']]"

text \<open>
  An entry of \<open>selectedClipMatches\<close>: the matched text (\<open>null\<close> for the entries built from
  the third pattern), the digits of the clip number, and the reason the third pattern
  captured.
\<close>

record clip_match =
  cm_text :: "string option"
  cm_number :: string
  cm_reason :: "string option"

definition of_rmatch :: "rmatch \<Rightarrow> clip_match" where
  "of_rmatch m = \<lparr>cm_text = Some (m_text m), cm_number = (case group m 1 of None \<Rightarrow> [] | Some d \<Rightarrow> d),
                  cm_reason = None\<rparr>"

text \<open>\<open>s.split('VIRAL POTENTIAL')[0]\<close>\<close>

definition before_viral_potential :: "string \<Rightarrow> string" where
  "before_viral_potential s =
     (case indexOf s ''VIRAL POTENTIAL'' of None \<Rightarrow> s | Some i \<Rightarrow> take i s)"

definition of_potential_match :: "rmatch \<Rightarrow> clip_match option" where
  "of_potential_match m =
     (case re_search True clipNumberExtract (before_viral_potential (m_text m)) of
        None \<Rightarrow> None
      | Some clipNumberMatch \<Rightarrow>
          Some \<lparr>cm_text = None,
                cm_number = (case group clipNumberMatch 1 of None \<Rightarrow> [] | Some d \<Rightarrow> d),
                cm_reason = Some (trim (case group m 1 of None \<Rightarrow> [] | Some r \<Rightarrow> r))\<rparr>)"

text \<open>The cascade of the three formats, each tried when the one before found nothing.\<close>

definition selectedClipMatches :: "string \<Rightarrow> clip_match list" where
  "selectedClipMatches aiResponseText =
     (let format1 = match_all True selectedClipRegex aiResponseText
      in if format1 \<noteq> [] then map of_rmatch format1
         else
           let format2 = match_all True clipNumberRegex aiResponseText
           in if format2 \<noteq> [] then map of_rmatch format2
              else List.map_filter of_potential_match
                     (match_all True viralPotentialRegex aiResponseText))"

definition captured :: "re \<Rightarrow> string \<Rightarrow> string option" where
  "captured r contextAfter =
     (case re_search True r contextAfter of
        None \<Rightarrow> None
      | Some m \<Rightarrow> Some (trim (case group m 1 of None \<Rightarrow> [] | Some x \<Rightarrow> x)))"

text \<open>
  The text from the first occurrence of the mention on; \<open>indexOf\<close> gives \<open>-1\<close> when there
  is none and \<open>substring(-1)\<close> is the whole text.
\<close>

definition contextAfter_of :: "string \<Rightarrow> clip_match \<Rightarrow> string" where
  "contextAfter_of aiResponseText m =
     (let clipMention = (case cm_text m of
                           Some t \<Rightarrow> if t \<noteq> [] then t else ''CLIP '' @ cm_number m
                         | None \<Rightarrow> ''CLIP '' @ cm_number m)
      in case indexOf aiResponseText clipMention of
           None \<Rightarrow> aiResponseText
         | Some i \<Rightarrow> drop i aiResponseText)"

definition reason_of :: "string \<Rightarrow> clip_match \<Rightarrow> string" where
  "reason_of aiResponseText m =
     (case captured potentialRegex (contextAfter_of aiResponseText m) of
        Some r \<Rightarrow> r
      | None \<Rightarrow> (case cm_reason m of
                   Some r \<Rightarrow> if r \<noteq> [] then trim r else []
                 | None \<Rightarrow> []))"

definition or_default :: "string \<Rightarrow> string \<Rightarrow> string" where
  "or_default s d = (if s \<noteq> [] then s else d)"

text \<open>
  The selection made from one entry, or \<open>None\<close> when its clip number is outside the pool.
\<close>

definition selection_of :: "clip list \<Rightarrow> string \<Rightarrow> clip_match \<Rightarrow> clip option" where
  "selection_of clipsForAI aiResponseText m =
     (let n = parseInt (cm_number m);
          contextAfter = contextAfter_of aiResponseText m;
          audience = (case captured audienceRegex contextAfter of None \<Rightarrow> [] | Some a \<Rightarrow> a);
          effectiveness = (case captured durationRegex contextAfter of None \<Rightarrow> [] | Some d \<Rightarrow> d)
      in if 1 \<le> n \<and> n - 1 < length clipsForAI
         then Some ((clipsForAI ! (n - 1))
                \<lparr>reason := Some (or_default (reason_of aiResponseText m)
                                   (''Selected by AI (Clip '' @ show_nat n @ '')'')),
                 targetAudience := Some (or_default audience ''General audience''),
                 durationEffectiveness := Some (or_default effectiveness []),
                 aiSelected := Some True\<rparr>)
         else None)"

definition selectedClips :: "clip list \<Rightarrow> string \<Rightarrow> clip list" where
  "selectedClips clipsForAI aiResponseText =
     List.map_filter (selection_of clipsForAI aiResponseText) (selectedClipMatches aiResponseText)"

text \<open>
  The last resort of the text path: \<open>/(?:^|\n)(?:.*?)(CLIP|clip)\s+(\d+)(?:$|\n|:)/g\<close>,
  then \<open>/\b(\d+)\b/\<close> on every mention.
\<close>

definition mentionRegex :: re where
  "mentionRegex =
     Seqs [Alt Bos (Str [NL]), LazyStar (Sym Dot), Grp 1 (Alt (Str ''CLIP'') (Str ''clip'')),
           Plus (Sym Space), Grp 2 (Plus (Sym Digit)), Alts [Eos, Str [NL], Str '':'']]"

definition standaloneNumber :: re where
  "standaloneNumber = Seqs [WordB, Grp 1 (Plus (Sym Digit)), WordB]"

text \<open>The 1-based number of a mention, 0 for a mention without a number.\<close>

definition mention_number :: "string \<Rightarrow> nat" where
  "mention_number mention =
     (case re_search False standaloneNumber mention of
        None \<Rightarrow> 0
      | Some m \<Rightarrow> parseInt (case group m 1 of None \<Rightarrow> [] | Some d \<Rightarrow> d))"

text \<open>\<open>[...new Set(xs)]\<close>: the first occurrence of every element, in order.\<close>

definition unique :: "'a list \<Rightarrow> 'a list" where
  "unique xs = rev (remdups (rev xs))"

definition uniqueIndices :: "clip list \<Rightarrow> string \<Rightarrow> nat list" where
  "uniqueIndices clipsForAI aiResponseText =
     unique
       (map (\<lambda>n. n - 1)
         (filter (\<lambda>n. 1 \<le> n \<and> n - 1 < length clipsForAI)
           (map (\<lambda>m. mention_number (m_text m)) (match_all False mentionRegex aiResponseText))))"

definition mentionedClips :: "clip list \<Rightarrow> string \<Rightarrow> clip list" where
  "mentionedClips clipsForAI aiResponseText =
     map (\<lambda>index. (clipsForAI ! index)
            \<lparr>reason := Some (''Mentioned by AI as Clip '' @ show_nat (index + 1)),
             aiSelected := Some True\<rparr>)
         (uniqueIndices clipsForAI aiResponseText)"

text \<open>
  What the call of the language model gives: it throws (or its response has no text to
  read, which throws in the lines that follow), or it returns the text of a reply.
\<close>

datatype llm_result = Threw | Reply string

text \<open>
  The selection step of \<open>identifyClipsFromFullText\<close>, from \<open>clipsForAI\<close> on.  Building
  the prompt reads \<open>impactFactors\<close> of every clip and throws inside the \<open>try\<close> when a clip
  has none.
\<close>

definition prompt_throws :: "clip list \<Rightarrow> bool" where
  "prompt_throws clipsForAI \<longleftrightarrow> list_ex (\<lambda>c. impactFactors c = None) clipsForAI"

definition select_fullText :: "clip list \<Rightarrow> llm_result \<Rightarrow> clip list" where
  "select_fullText clipsForAI llm =
     (if clipsForAI = [] then []
      else if prompt_throws clipsForAI then fallbackClipSelection clipsForAI
      else (case llm of
              Threw \<Rightarrow> fallbackClipSelection clipsForAI
            | Reply aiResponseText \<Rightarrow>
                if selectedClips clipsForAI aiResponseText \<noteq> []
                then selectedClips clipsForAI aiResponseText
                else if uniqueIndices clipsForAI aiResponseText \<noteq> []
                then mentionedClips clipsForAI aiResponseText
                else fallbackClipSelection clipsForAI))"

text \<open>The selection step of \<open>identifyClipsFromUtterances\<close>, which has no last resort.\<close>

definition select_utterances :: "clip list \<Rightarrow> llm_result \<Rightarrow> clip list" where
  "select_utterances clipsForAI llm =
     (if prompt_throws clipsForAI then fallbackClipSelection clipsForAI
      else (case llm of
              Threw \<Rightarrow> fallbackClipSelection clipsForAI
            | Reply aiResponseText \<Rightarrow>
                if selectedClips clipsForAI aiResponseText \<noteq> []
                then selectedClips clipsForAI aiResponseText
                else fallbackClipSelection clipsForAI))"

section \<open>Predicates of the specification\<close>

text \<open>The last character of a string that is not white space, if there is one.\<close>

definition last_visible :: "string \<Rightarrow> char option" where
  "last_visible s = (case dropWhile is_space (rev s) of [] \<Rightarrow> None | c # _ \<Rightarrow> Some c)"


text \<open>
  The score of the text path as the specification states it, for a duration \<open>d\<close> and a
  clip: duration quality, impact bonus (question mark 0.10, powerful words 0.15, numbers
  0.10) and 0.5 for a text that ends on a complete sentence.
\<close>

definition stated_score :: "real \<Rightarrow> clip \<Rightarrow> real" where
  "stated_score d c =
     (1 - \<bar>d - CLIP_IDEAL_DURATION\<bar> / CLIP_IDEAL_DURATION)
       + ((if includes_str (ctext c) ''?'' then 0.1 else 0)
          + (if re_test True powerfulWords (ctext c) then 0.15 else 0)
          + (if re_test True numberWords (ctext c) then 0.1 else 0))
       + (if endsWithCompleteSentence c = Some True then 0.5 else 0)"


text \<open>
  The number of phrases of 3 to 8 consecutive words (in lower case) that occur more than
  once among the phrases of their length.
\<close>

definition repeated_ngrams :: "string \<Rightarrow> nat" where
  "repeated_ngrams t =
     (\<Sum>n\<leftarrow>[3 ..< 9]. card {p \<in> set (phrases_of_length (split_ws t) n).
                              1 < count_list (phrases_of_length (split_ws t) n) p})"

text \<open>The table built by \<open>bump\<close>: distinct keys, each with the number of its occurrences.\<close>

definition counts_of :: "(string \<times> nat) list \<Rightarrow> string \<Rightarrow> nat" where
  "counts_of kvs k = (case map_of kvs k of None \<Rightarrow> 0 | Some n \<Rightarrow> n)"



text \<open>A match whose clip number lies in a pool of \<open>n\<close> clips.\<close>

definition in_pool :: "nat \<Rightarrow> nat \<Rightarrow> bool" where
  "in_pool n k \<longleftrightarrow> 1 \<le> k \<and> k \<le> n"

text \<open>What claim C10 asks of a selection of the reply: a reason and a target audience.\<close>

definition has_reason_and_audience :: "clip \<Rightarrow> bool" where
  "has_reason_and_audience s \<longleftrightarrow> truthy_str (reason s) \<and> truthy_str (targetAudience s)"

section \<open>Sample inputs\<close>


text \<open>Three clips with negative scores, and two clips with the scores 0.9 and 0.5.\<close>

definition scored_clip :: "real \<Rightarrow> real \<Rightarrow> real \<Rightarrow> clip" where
  "scored_clip s e q = (new_clip ''clip'' s e (e - s))\<lparr>qualityScore := Some q\<rparr>"


definition overlapping_pair :: "clip list" where
  "overlapping_pair = [scored_clip 0 10 0.5, scored_clip 2 12 0.9]"



text \<open>
  A pool for the fallback: a very short clip, a short clip, a second short clip that
  overlaps it, and a third short clip elsewhere.  And a pool with one clip per category.
\<close>

definition timed_clip :: "real \<Rightarrow> real \<Rightarrow> real \<Rightarrow> clip" where
  "timed_clip s e q = (new_clip ''x'' s e (e - s))\<lparr>qualityScore := Some q\<rparr>"

definition fallback_pool :: "clip list" where
  "fallback_pool =
     [timed_clip 0 12 1, timed_clip 100 108 1, timed_clip 2 13 0.5, timed_clip 200 215 0.2]"

definition four_buckets_pool :: "clip list" where
  "four_buckets_pool =
     [timed_clip 0 8 0.4, timed_clip 100 115 0.3, timed_clip 200 225 0.2, timed_clip 300 340 0.1]"

text \<open>
  A pool of \<open>n\<close> clips of the text path, \<open>Clip text 1\<close> to \<open>Clip text n\<close>, and four replies:
  a selection in the requested format; two selections whose numbers are 12 and 1; a
  selection outside a pool of three clips followed by a mention; a selection outside the
  pool alone.
\<close>

definition numbered_pool :: "nat \<Rightarrow> clip list" where
  "numbered_pool n =
     map (\<lambda>i. (new_clip (''Clip text '' @ show_nat i) (real i * 100) (real i * 100 + 12) 12)
                 \<lparr>qualityScore := Some 1,
                  impactFactors := Some \<lparr>hasQuestion = False, hasPowerfulWords = False,
                                          hasNumbers = False, impactBonus = 0\<rparr>,
                  endsWithCompleteSentence := Some True\<rparr>)
         [1 ..< Suc n]"

definition formatted_reply :: string where
  "formatted_reply =
     ''SELECTED CLIP #: 3'' @ [NL] @ ''VIRAL POTENTIAL: great hook. '' @ [NL]
       @ ''TARGET AUDIENCE: everyone'' @ [NL] @ ''DURATION EFFECTIVENESS: short'' @ [NL]"

definition two_selections_reply :: string where
  "two_selections_reply =
     ''SELECTED CLIP #: 12'' @ [NL] @ ''VIRAL POTENTIAL: A'' @ [NL, NL]
       @ ''SELECTED CLIP #: 1'' @ [NL] @ ''VIRAL POTENTIAL: B'' @ [NL]"

definition mention_reply :: string where
  "mention_reply = ''SELECTED CLIP #: 9'' @ [NL] @ ''Also consider clip 3'' @ [NL]"

definition out_of_pool_reply :: string where
  "out_of_pool_reply = ''SELECTED CLIP #: 9'' @ [NL]"

section \<open>Checks of the string functions\<close>

lemma lower_letters:
  "map lower ''ABCDEFGHIJKLMNOPQRSTUVWXYZ'' = ''abcdefghijklmnopqrstuvwxyz''
   \<and> map lower ''az09 .!?#:@[{'' = ''az09 .!?#:@[{''
   \<and> map lower [CHR 0xC0, CHR 0xD6, CHR 0xD7, CHR 0xDE, CHR 0xDF, CHR 0xFF]
       = [CHR 0xE0, CHR 0xF6, CHR 0xD7, CHR 0xFE, CHR 0xDF, CHR 0xFF]"
  by code_simp

lemma split_ws_example: "split_ws '' a  b '' = [[], ''a'', ''b'', []] \<and> split_ws [] = [[]]"
  by code_simp

lemma sentences_of_example:
  "sentences_of ''Hi there. Go!? rest'' = [''Hi there.'', '' Go!?'']"
  by code_simp

lemma match_all_example:
  "map (\<lambda>m. (m_index m, m_text m, group m 1))
       (match_all True clipNumberRegex ''I recommend CLIP 2 and clip #: 15.'')
     = [(12, ''CLIP 2'', Some ''2''), (23, ''clip #: 15'', Some ''15'')]"
  by code_simp

section \<open>Properties of the text path\<close>

lemma terminator_not_space: "is_terminator c \<Longrightarrow> \<not> is_space c"
  by (auto simp: is_terminator_def is_space_def)

lemma bt_suffix:
  "st' \<in> set (bt ci r st) \<Longrightarrow> \<exists>w. fst (snd st) = w @ fst (snd st')"
proof (induction ci r st arbitrary: st' rule: bt.induct)
  case (1 ci cs p s g)
  then show ?case by (auto split: list.splits if_splits)
next
  case (2 ci st)
  then show ?case by simp
next
  case (3 ci r1 r2 st)
  from "3.prems" obtain st1 where s1: "st1 \<in> set (bt ci r1 st)" and s2: "st' \<in> set (bt ci r2 st1)"
    by auto
  from "3.IH"(1) [OF s1] "3.IH"(2) [OF s1 s2] show ?case by auto
next
  case (4 ci r1 r2 st)
  from "4.prems" have "st' \<in> set (bt ci r1 st) \<or> st' \<in> set (bt ci r2 st)" by simp
  then show ?case using "4.IH" by blast
next
  case (5 ci r p s g)
  from "5.prems" consider "st' = (p, s, g)"
    | st1 where "st1 \<in> set (bt ci r (p, s, g))" "length (fst (snd st1)) < length s"
        "st' \<in> set (bt ci (Star r) st1)"
    by (auto split: if_splits)
  then show ?case
  proof cases
    case 1
    then show ?thesis by simp
  next
    case 2
    from "5.IH"(1) [OF 2(1)] "5.IH"(2) [OF 2(1) 2(2) 2(3)] show ?thesis by auto
  qed
next
  case (6 ci r p s g)
  from "6.prems" consider "st' = (p, s, g)"
    | st1 where "st1 \<in> set (bt ci r (p, s, g))" "length (fst (snd st1)) < length s"
        "st' \<in> set (bt ci (LazyStar r) st1)"
    by (auto split: if_splits)
  then show ?case
  proof cases
    case 1
    then show ?thesis by simp
  next
    case 2
    from "6.IH"(1) [OF 2(1)] "6.IH"(2) [OF 2(1) 2(2) 2(3)] show ?thesis by auto
  qed
next
  case (7 ci n r p s g)
  then show ?case by auto
next
  case (8 ci p s g)
  then show ?case by (auto split: if_splits)
next
  case (9 ci p s g)
  then show ?case by (auto split: if_splits)
next
  case (10 ci p s g)
  then show ?case by (auto split: if_splits)
qed

lemma star_sym_consumed:
  "st' \<in> set (bt ci (Star (Sym C)) (p, s, g)) \<Longrightarrow>
     \<exists>w. s = w @ fst (snd st') \<and> (\<forall>c \<in> set w. in_cset ci C c)"
proof (induction s arbitrary: p)
  case Nil
  then show ?case by auto
next
  case (Cons a s)
  show ?case
  proof (cases "in_cset ci C a")
    case False
    with Cons.prems show ?thesis by auto
  next
    case True
    with Cons.prems consider "st' = (p, a # s, g)" | "st' \<in> set (bt ci (Star (Sym C)) (Some a, s, g))"
      by auto
    then show ?thesis
    proof cases
      case 1
      then show ?thesis by auto
    next
      case 2
      from Cons.IH [OF 2] obtain w where "s = w @ fst (snd st')" "\<forall>c \<in> set w. in_cset ci C c"
        by blast
      with True show ?thesis by (intro exI [of _ "a # w"]) auto
    qed
  qed
qed

lemma plus_sym_consumed:
  assumes "st' \<in> set (bt ci (Plus (Sym C)) (p, s, g))"
  shows "\<exists>w. s = w @ fst (snd st') \<and> w \<noteq> [] \<and> (\<forall>c \<in> set w. in_cset ci C c)"
proof -
  from assms obtain a s1 where s: "s = a # s1" and a: "in_cset ci C a"
    and st: "st' \<in> set (bt ci (Star (Sym C)) (Some a, s1, g))"
    by (auto simp: Plus_def split: list.splits if_splits)
  from star_sym_consumed [OF st] obtain w where "s1 = w @ fst (snd st')"
    "\<forall>c \<in> set w. in_cset ci C c" by blast
  with s a show ?thesis by (intro exI [of _ "a # w"]) auto
qed

lemma seq_plus_sym_consumed:
  assumes "st' \<in> set (bt ci (Seq r (Plus (Sym C))) st)"
  shows "\<exists>w. fst (snd st) = w @ fst (snd st') \<and> w \<noteq> [] \<and> in_cset ci C (last w)"
proof -
  from assms obtain st1 where s1: "st1 \<in> set (bt ci r st)"
    and s2: "st' \<in> set (bt ci (Plus (Sym C)) st1)" by auto
  obtain p1 t1 g1 where st1: "st1 = (p1, t1, g1)" by (cases st1) auto
  from bt_suffix [OF s1] obtain w1 where w1: "fst (snd st) = w1 @ t1" by (auto simp: st1)
  from plus_sym_consumed [OF s2 [unfolded st1]] obtain w2 where
    w2: "t1 = w2 @ fst (snd st')" "w2 \<noteq> []" "\<forall>c \<in> set w2. in_cset ci C c" by blast
  then have "in_cset ci C (last w2)" by simp
  with w1 w2 show ?thesis by (intro exI [of _ "w1 @ w2"]) auto
qed

lemma scan_all_member:
  "m \<in> set (scan_all ci r k i p s) \<Longrightarrow> \<exists>i' p' s'. match_here ci r i' p' s' = Some m"
proof (induction s arbitrary: k i p)
  case Nil
  have e: "scan_all ci r k i p [] =
             (if k = 0 then (case match_here ci r i p [] of None \<Rightarrow> [] | Some m \<Rightarrow> [m]) else [])"
    by (rule scan_all.simps)
  have "match_here ci r i p [] = Some m"
    using Nil unfolding e
    by (cases "k = 0"; cases "match_here ci r i p []") simp_all
  then show ?case by blast
next
  case (Cons a s)
  have e: "scan_all ci r k i p (a # s) =
     (if 0 < k then scan_all ci r (k - 1) (Suc i) (Some a) s
      else (case match_here ci r i p (a # s) of
              None \<Rightarrow> scan_all ci r 0 (Suc i) (Some a) s
            | Some m \<Rightarrow> m # scan_all ci r (length (m_text m) - 1) (Suc i) (Some a) s))"
    by (rule scan_all.simps)
  show ?case
  proof (cases "0 < k")
    case True
    with Cons.prems have "m \<in> set (scan_all ci r (k - 1) (Suc i) (Some a) s)"
      unfolding e by simp
    then show ?thesis by (rule Cons.IH)
  next
    case False
    show ?thesis
    proof (cases "match_here ci r i p (a # s)")
      case None
      with False Cons.prems have "m \<in> set (scan_all ci r 0 (Suc i) (Some a) s)"
        unfolding e by simp
      then show ?thesis by (rule Cons.IH)
    next
      case (Some m')
      with False Cons.prems
      have "m = m' \<or> m \<in> set (scan_all ci r (length (m_text m') - 1) (Suc i) (Some a) s)"
        unfolding e by simp
      then show ?thesis using Some Cons.IH by blast
    qed
  qed
qed

lemma sentences_of_end:
  assumes "x \<in> set (sentences_of t)"
  shows "x \<noteq> [] \<and> is_terminator (last x)"
proof -
  from assms obtain m where "m \<in> set (match_all False sentencePattern t)" and x: "x = m_text m"
    by (auto simp: sentences_of_def)
  from scan_all_member [OF this(1) [unfolded match_all_def]] obtain i p s
    where mh: "match_here False sentencePattern i p s = Some m" by blast
  then obtain st' rest where bt: "bt False sentencePattern (p, s, []) = st' # rest"
    and m: "m_text m = take (length s - length (fst (snd st'))) s"
    by (auto simp: match_here_def split: list.splits)
  from bt have "st' \<in> set (bt False sentencePattern (p, s, []))" by simp
  from seq_plus_sym_consumed [OF this [unfolded sentencePattern_def]]
  obtain w where w: "s = w @ fst (snd st')" "w \<noteq> []" "in_cset False (Chars ''.!?'') (last w)"
    by auto
  from w(1) have "take (length s - length (fst (snd st'))) s = w"
    by (metis add_diff_cancel_right' append_eq_conv_conj length_append)
  with m x w show ?thesis by (simp add: is_terminator_def)
qed

lemma join_space_last:
  "xs \<noteq> [] \<Longrightarrow> last xs \<noteq> [] \<Longrightarrow> join_space xs \<noteq> [] \<and> last (join_space xs) = last (last xs)"
  by (induction xs rule: join_space.induct) auto

lemma trim_keeps_last:
  assumes "s \<noteq> []" and "\<not> is_space (last s)"
  shows "last_visible (trim s) = Some (last s)"
proof -
  obtain c t where rs: "rev s = c # t" using assms(1) by (cases "rev s") auto
  then have c: "c = last s" by (metis last_rev list.sel(1) rev.simps(1) rev_rev_ident hd_rev)
  define u where "u = dropWhile is_space s"
  have "last s \<in> set s" using assms(1) by simp
  have une: "u \<noteq> []" unfolding u_def using assms by (metis dropWhile_eq_Nil_conv last_in_set)
  have lu: "last u = last s" unfolding u_def using assms une
    by (metis append_self_conv last_appendR takeWhile_dropWhile_id u_def)
  then obtain t' where ru: "rev u = last s # t'" using une
    by (metis last_rev list.exhaust_sel rev_is_Nil_conv rev_rev_ident hd_rev)
  have tr: "trim s = rev (last s # t')" using assms(2) ru by (simp add: trim_def u_def)
  show ?thesis by (simp add: tr last_visible_def assms(2))
qed


lemma window_clip_Some:
  assumes "window_clip ss tpw spg i = Some c"
  shows "\<exists>wc s e. c = pushed_clip (join_space (take spg (drop i ss))) wc spg s e
           \<and> duration_allowed (e - s) \<and> 5 \<le> wc
           \<and> wc = word_count (join_space (take spg (drop i ss)))
           \<and> (s, e) = estimatedTimes tpw (sum_list (map word_count (take i ss))) wc"
  using assms unfolding window_clip_def Let_def
  by (simp split: if_splits) (metis not_less prod.collapse)

lemma pushed_clip_simps [simp]:
  "ctext (pushed_clip t wc spg s e) = t"
  "start (pushed_clip t wc spg s e) = s"
  "cend (pushed_clip t wc spg s e) = e"
  "duration (pushed_clip t wc spg s e) = e - s"
  "qualityScore (pushed_clip t wc spg s e) = Some (text_score (e - s) t)"
  "endsWithCompleteSentence (pushed_clip t wc spg s e)
     = Some (re_test False completeSentenceEnd (trim t))"
  by (simp_all add: pushed_clip_def new_clip_def Let_def)

lemma window_clip_text:
  "window_clip ss tpw spg i = Some c \<Longrightarrow> ctext c = join_space (take spg (drop i ss))"
  by (drule window_clip_Some) auto

lemma map_filter_member:
  "c \<in> set (List.map_filter f xs) \<longleftrightarrow> (\<exists>x \<in> set xs. f x = Some c)"
  by (induction xs) (auto split: option.splits)

lemma windows_of_size_member:
  assumes "c \<in> set (windows_of_size ss tpw spg)"
  shows "\<exists>i. i + spg \<le> length ss \<and> window_clip ss tpw spg i = Some c"
proof -
  from assms obtain i where "i \<in> set [0 ..< length ss + 1 - spg]" "window_clip ss tpw spg i = Some c"
    by (auto simp: windows_of_size_def map_filter_member)
  then show ?thesis by (intro exI [of _ i]) auto
qed

lemma group_loop_member:
  "c \<in> set (group_loop ss tpw n acc) \<Longrightarrow>
     c \<in> set acc \<or> (\<exists>spg. 1 \<le> spg \<and> spg \<le> n \<and> c \<in> set (windows_of_size ss tpw spg))"
proof (induction n arbitrary: acc)
  case 0
  then show ?case by simp
next
  case (Suc n)
  let ?acc' = "acc @ windows_of_size ss tpw (Suc n)"
  show ?case
  proof (cases "150 \<le> length ?acc'")
    case True
    with Suc.prems have "c \<in> set ?acc'" by (simp add: Let_def)
    then show ?thesis by auto
  next
    case False
    with Suc.prems have "c \<in> set (group_loop ss tpw n ?acc')" by (simp add: Let_def)
    from Suc.IH [OF this] show ?thesis
      by (auto intro: le_SucI)
  qed
qed

lemma createPotentialClips_member:
  assumes "c \<in> set (createPotentialClips ss tpw ct)"
  shows "\<exists>spg i. 1 \<le> spg \<and> i + spg \<le> length ss \<and> window_clip ss tpw spg i = Some c"
proof -
  from assms group_loop_member [of c ss tpw _ "[]"]
  obtain spg where "1 \<le> spg" "c \<in> set (windows_of_size ss tpw spg)"
    by (auto simp: createPotentialClips_def)
  with windows_of_size_member show ?thesis by blast
qed

text \<open>
  Claim C1.  Every candidate that \<open>createPotentialClips\<close> emits on the sentences of a
  transcript text and that has \<open>endsWithCompleteSentence = true\<close> has a trimmed text whose
  last character that is not white space is one of \<open>.\<close>, \<open>!\<close>, \<open>?\<close>.
\<close>

theorem complete_sentence_ends_on_terminator:
  assumes "c \<in> set (createPotentialClips (sentences_of t) timePerWord contentType)"
    and "endsWithCompleteSentence c = Some True"
  shows "\<exists>p. last_visible (trim (ctext c)) = Some p \<and> is_terminator p"
proof -
  let ?ss = "sentences_of t"
  from createPotentialClips_member [OF assms(1)]
  obtain spg i where spg: "1 \<le> spg" and i: "i + spg \<le> length ?ss"
    and w: "window_clip ?ss timePerWord spg i = Some c" by blast
  let ?g = "take spg (drop i ?ss)"
  have ne: "?g \<noteq> []" using spg i by auto
  then have "last ?g \<in> set ?ss"
    by (meson in_set_dropD in_set_takeD last_in_set)
  then have l: "last ?g \<noteq> [] \<and> is_terminator (last (last ?g))"
    by (rule sentences_of_end)
  with ne have j: "join_space ?g \<noteq> []" "last (join_space ?g) = last (last ?g)"
    using join_space_last [of ?g] by auto
  have "last_visible (trim (join_space ?g)) = Some (last (join_space ?g))"
    using j l by (intro trim_keeps_last) (auto simp: terminator_not_space)
  then show ?thesis using window_clip_text [OF w] j l by auto
qed

theorem complete_sentence_ends_on_terminator_witness:
  "\<exists>c \<in> set (createPotentialClips (sentences_of ''a b c d e f g h i j k l m n.'') 0.4 ''generic'').
     endsWithCompleteSentence c = Some True \<and>
     (\<exists>p. last_visible (trim (ctext c)) = Some p \<and> is_terminator p)"
proof -
  let ?cs = "createPotentialClips (sentences_of ''a b c d e f g h i j k l m n.'') 0.4 ''generic''"
  have e: "?cs \<noteq> [] \<and> endsWithCompleteSentence (hd ?cs) = Some True"
    by code_simp
  then have m: "hd ?cs \<in> set ?cs" by simp
  from complete_sentence_ends_on_terminator [OF m] e m show ?thesis by blast
qed

section \<open>Durations of the candidates\<close>

lemma validate_clip_span: "duration (validate_clip m c) = cend (validate_clip m c) - start (validate_clip m c)"
  by (simp add: validate_clip_def Let_def)


lemma window_candidate_fields [simp]:
  "start (window_candidate ws we wu) = ws"
  "cend (window_candidate ws we wu) = we"
  "duration (window_candidate ws we wu) = we - ws"
  by (simp_all add: window_candidate_def new_clip_def Let_def)













section \<open>The score of the text path\<close>

lemma pushed_clip_score:
  "qualityScore (pushed_clip t wc spg s e) = Some (stated_score (e - s) (pushed_clip t wc spg s e))"
  by (simp add: stated_score_def text_score_def durationQuality_def impact_of_def Let_def
        sentenceCompletionBonus_def)

lemma validate_clip_keeps [simp]:
  "ctext (validate_clip m c) = ctext c"
  "qualityScore (validate_clip m c) = qualityScore c"
  "endsWithCompleteSentence (validate_clip m c) = endsWithCompleteSentence c"
  by (simp_all add: validate_clip_def Let_def)

lemma stated_score_cong:
  "ctext c = ctext c' \<Longrightarrow> endsWithCompleteSentence c = endsWithCompleteSentence c' \<Longrightarrow>
   stated_score d c = stated_score d c'"
  by (simp add: stated_score_def)

text \<open>
  Claim C8, as amended.  Every candidate \<open>c\<close> of the text path is the validated form of a
  clip \<open>c0\<close> of \<open>createPotentialClips\<close>, and its \<open>qualityScore\<close> is the stated sum
  evaluated over the text of \<open>c\<close> and the padded duration of \<open>c0\<close>, which is the duration
  before timestamp validation.  When validation leaves both timestamps as they were, this
  is the sum over the candidate's own duration.
\<close>

theorem text_path_quality_score:
  assumes "c \<in> set (validatedClips t audio)"
  shows "\<exists>c0 \<in> set (potentialClips_of t audio).
           c = validate_clip (maxTime_of audio) c0
           \<and> duration c0 = cend c0 - start c0
           \<and> qualityScore c = Some (stated_score (duration c0) c)
           \<and> (start c = start c0 \<and> cend c = cend c0 \<longrightarrow>
                qualityScore c = Some (stated_score (duration c) c))"
proof -
  from assms obtain c0 where c0: "c0 \<in> set (potentialClips_of t audio)"
    and c: "c = validate_clip (maxTime_of audio) c0"
    by (auto simp: validatedClips_def)
  from c0 createPotentialClips_member obtain spg i
    where "window_clip (sentences_of t) (timePerWord_of t audio) spg i = Some c0"
    unfolding potentialClips_of_def by blast
  from window_clip_Some [OF this] obtain wc s e
    where p: "c0 = pushed_clip (join_space (take spg (drop i (sentences_of t)))) wc spg s e"
    by blast
  have span: "duration c0 = cend c0 - start c0" by (simp add: p)
  have "qualityScore c0 = Some (stated_score (duration c0) c0)"
    unfolding p using pushed_clip_score by simp
  then have q: "qualityScore c = Some (stated_score (duration c0) c)"
    using stated_score_cong [of c c0] by (simp add: c)
  have "duration c = duration c0" if "start c = start c0" "cend c = cend c0"
    using that span validate_clip_span [of "maxTime_of audio" c0] by (simp add: c)
  with q c0 c span show ?thesis by auto
qed

theorem text_path_quality_score_witness:
  "validatedClips ''a b c d e f g h i j k l m n.'' None \<noteq> []
   \<and> (\<exists>c0 \<in> set (potentialClips_of ''a b c d e f g h i j k l m n.'' None).
        qualityScore (hd (validatedClips ''a b c d e f g h i j k l m n.'' None))
          = Some (stated_score (duration c0) (hd (validatedClips ''a b c d e f g h i j k l m n.'' None))))"
proof -
  have n: "validatedClips ''a b c d e f g h i j k l m n.'' None \<noteq> []" by code_simp
  then have "hd (validatedClips ''a b c d e f g h i j k l m n.'' None)
               \<in> set (validatedClips ''a b c d e f g h i j k l m n.'' None)" by simp
  from text_path_quality_score [OF this] n show ?thesis by blast
qed

text \<open>
  Claim C8 as stated fails: with an audio duration of 10 seconds the window is estimated
  to last 11 seconds and scored for 11, then cut to 10 by the validation, which keeps the
  score.
\<close>

theorem stale_score_counterexample:
  "\<not> list_all (\<lambda>c. qualityScore c = Some (stated_score (duration c) c))
       (validatedClips ''a b c d e f g h i j k l m n.'' (Some 10))"
  by code_simp

section \<open>Overlap resolution\<close>














lemma overlapping_pair_keeps_best:
  "map qualityScore (analyzeClipsForQualityAndOverlap overlapping_pair) = [Some 0.9]"
  by code_simp

section \<open>Content type\<close>

lemma length_insert_by: "length (insert_by cmp x xs) = Suc (length xs)"
  by (induction xs) auto

lemma length_sort_by: "length (sort_by cmp xs) = length xs"
  unfolding sort_by_def by (induction xs) (simp_all add: length_insert_by)

lemma bump_keys:
  "map fst (bump kvs k) = (if k \<in> set (map fst kvs) then map fst kvs else map fst kvs @ [k])"
  by (induction kvs k rule: bump.induct) auto

lemma bump_distinct: "distinct (map fst kvs) \<Longrightarrow> distinct (map fst (bump kvs k))"
  by (simp add: bump_keys)

lemma bump_counts:
  "counts_of (bump kvs k) k' = (if k' = k then Suc (counts_of kvs k) else counts_of kvs k')"
  by (induction kvs k rule: bump.induct) (auto simp: counts_of_def)

lemma foldl_bump:
  "distinct (map fst kvs) \<Longrightarrow>
   distinct (map fst (foldl bump kvs ps))
   \<and> set (map fst (foldl bump kvs ps)) = set (map fst kvs) \<union> set ps
   \<and> (\<forall>k. counts_of (foldl bump kvs ps) k = counts_of kvs k + count_list ps k)"
proof (induction ps arbitrary: kvs)
  case Nil
  then show ?case by simp
next
  case (Cons p ps)
  from Cons.IH [OF bump_distinct [OF Cons.prems], of p]
  show ?case by (auto simp: bump_keys bump_counts)
qed

lemma snd_is_count:
  assumes "distinct (map fst kvs)" "(k, n) \<in> set kvs"
  shows "counts_of kvs k = n"
  using assms by (simp add: counts_of_def)

lemma length_repeated:
  "length (repeated_of_length ws n)
     = card {p \<in> set (phrases_of_length ws n). 1 < count_list (phrases_of_length ws n) p}"
proof -
  let ?ps = "phrases_of_length ws n"
  let ?kvs = "phraseCounts ?ps"
  from foldl_bump [of "[]" ?ps]
  have d: "distinct (map fst ?kvs)" and s: "set (map fst ?kvs) = set ?ps"
    and c: "\<And>k. counts_of ?kvs k = count_list ?ps k"
    by (simp_all add: phraseCounts_def counts_of_def)
  have "map fst (filter (\<lambda>pc. 1 < snd pc) ?kvs)
          = filter (\<lambda>k. 1 < count_list ?ps k) (map fst ?kvs)"
  proof -
    have "\<And>pc. pc \<in> set ?kvs \<Longrightarrow> snd pc = count_list ?ps (fst pc)"
      using snd_is_count [OF d] c by (metis prod.collapse)
    then show ?thesis by (simp add: filter_map comp_def cong: filter_cong)
  qed
  then have "length (repeated_of_length ws n)
               = length (filter (\<lambda>k. 1 < count_list ?ps k) (map fst ?kvs))"
    unfolding repeated_of_length_def by (metis length_map)
  also have "\<dots> = card (set (filter (\<lambda>k. 1 < count_list ?ps k) (map fst ?kvs)))"
    by (rule distinct_card [symmetric]) (rule distinct_filter [OF d])
  also have "set (filter (\<lambda>k. 1 < count_list ?ps k) (map fst ?kvs))
               = {p \<in> set ?ps. 1 < count_list ?ps p}"
    using s by auto
  finally show ?thesis .
qed

lemma length_findRepeatedPhrases: "length (findRepeatedPhrases t) = repeated_ngrams t"
  by (simp add: findRepeatedPhrases_def repeated_ngrams_def length_sort_by length_concat
        comp_def length_repeated del: upt.simps)

text \<open>
  Claim C9.  \<open>detectContentType\<close> returns one of the four content types, the first one in
  the order music, educational, interview whose test passes, and \<open>generic\<close> when none
  does; the test for music is the keyword pattern or more than three repeated phrases of
  3 to 8 words.
\<close>

theorem detectContentType_priority:
  "detectContentType t \<in> {''music'', ''educational'', ''interview'', ''generic''}
   \<and> detectContentType t =
       (if re_test True musicKeywords t \<or> 3 < repeated_ngrams t then ''music''
        else if re_test True educationalKeywords t then ''educational''
        else if re_test True interviewKeywords t then ''interview''
        else ''generic'')"
  by (simp add: detectContentType_def length_findRepeatedPhrases)

theorem detectContentType_priority_witness:
  "\<not> re_test True musicKeywords ''la la la la la la la''
   \<and> 3 < repeated_ngrams ''la la la la la la la''
   \<and> detectContentType ''la la la la la la la'' = ''music''
   \<and> detectContentType ''we asked her to teach'' = ''educational''
   \<and> detectContentType ''we asked her'' = ''interview''
   \<and> detectContentType ''hello'' = ''generic''"
proof -
  have 1: "\<not> re_test True musicKeywords ''la la la la la la la''" by code_simp
  have 2: "3 < repeated_ngrams ''la la la la la la la''" by code_simp
  have 3: "\<not> (re_test True musicKeywords ''we asked her to teach''
               \<or> 3 < repeated_ngrams ''we asked her to teach'')
           \<and> re_test True educationalKeywords ''we asked her to teach''" by code_simp
  have 4: "\<not> (re_test True musicKeywords ''we asked her''
               \<or> 3 < repeated_ngrams ''we asked her'')
           \<and> \<not> re_test True educationalKeywords ''we asked her''
           \<and> re_test True interviewKeywords ''we asked her''" by code_simp
  have 5: "\<not> (re_test True musicKeywords ''hello'' \<or> 3 < repeated_ngrams ''hello'')
           \<and> \<not> re_test True educationalKeywords ''hello''
           \<and> \<not> re_test True interviewKeywords ''hello''" by code_simp
  show ?thesis
    using detectContentType_priority [of "''la la la la la la la''"]
      detectContentType_priority [of "''we asked her to teach''"]
      detectContentType_priority [of "''we asked her''"]
      detectContentType_priority [of "''hello''"] 1 2 3 4 5
    by simp
qed

section \<open>Diverse selection\<close>



lemma set_insert_by: "set (insert_by cmp x xs) = insert x (set xs)"
  by (induction xs) auto

lemma set_sort_by: "set (sort_by cmp xs) = set xs"
  unfolding sort_by_def by (induction xs) (simp_all add: set_insert_by)















section \<open>Fallback selection\<close>

lemma score_for_fallback_fields [simp]:
  "duration (score_for_fallback c) = duration c"
  "start (score_for_fallback c) = start c"
  "cend (score_for_fallback c) = cend c"
  "durationCategory (score_for_fallback c) = Some (category_of (duration c))"
  "reason (score_for_fallback c) = Some (viral_reason (fallback_viralScore (ctext c)))"
  "targetAudience (score_for_fallback c) = targetAudience c"
  by (simp_all add: score_for_fallback_def Let_def)

lemma category_of_known: "category_of d \<in> set categories"
  by (simp add: category_of_def categories_def)

lemma scoredClips_member:
  "x \<in> set (scoredClips pool) \<Longrightarrow> \<exists>c \<in> set pool. snd x = score_for_fallback c"
  by (cases x) (auto simp: scoredClips_def in_set_enumerate_eq)

lemma scoredClips_of_pool:
  assumes "c \<in> set pool"
  shows "\<exists>i. (i, score_for_fallback c) \<in> set (scoredClips pool)"
proof -
  from assms obtain i where "i < length pool" "pool ! i = c" by (auto simp: in_set_conv_nth)
  then have "(i, score_for_fallback c) \<in> set (scoredClips pool)"
    by (auto simp: scoredClips_def in_set_enumerate_eq)
  then show ?thesis ..
qed

lemma length_category_picks: "length (category_picks scored) \<le> 4"
proof -
  have "length (concat (map (\<lambda>clips. case clips of [] \<Rightarrow> [] | c # _ \<Rightarrow> [c]) bs)) \<le> length bs"
    for bs :: "(nat \<times> clip) list list"
    by (induction bs) (auto split: list.splits)
  from this [of "clipsByDuration scored"] show ?thesis
    by (simp add: category_picks_def clipsByDuration_def categories_def)
qed

lemma heads_member:
  "p \<in> set (concat (map (\<lambda>clips. case clips of [] \<Rightarrow> [] | c # _ \<Rightarrow> [c]) bs))
     \<longleftrightarrow> (\<exists>t. p # t \<in> set bs)"
  by (induction bs) (auto split: list.splits)

lemma clipsByDuration_member:
  "b \<in> set (clipsByDuration scored) \<longleftrightarrow>
     (\<exists>cat \<in> set categories.
        b = sort_by by_final (filter (\<lambda>c. durationCategory (snd c) = Some cat) scored))"
  by (auto simp: clipsByDuration_def)

lemma category_picks_member:
  "p \<in> set (category_picks scored) \<longleftrightarrow>
     (\<exists>cat \<in> set categories. \<exists>t.
        sort_by by_final (filter (\<lambda>c. durationCategory (snd c) = Some cat) scored) = p # t)"
  unfolding category_picks_def heads_member clipsByDuration_member by metis

lemma set_category_picks: "set (category_picks scored) \<subseteq> set scored"
proof
  fix p assume "p \<in> set (category_picks scored)"
  then obtain cat t where
    "sort_by by_final (filter (\<lambda>c. durationCategory (snd c) = Some cat) scored) = p # t"
    unfolding category_picks_member by blast
  then have "p \<in> set (sort_by by_final (filter (\<lambda>c. durationCategory (snd c) = Some cat) scored))"
    by simp
  then show "p \<in> set scored" by (simp add: set_sort_by)
qed

lemma category_picks_cover:
  assumes "x \<in> set scored" "durationCategory (snd x) = Some cat" "cat \<in> set categories"
  shows "\<exists>p \<in> set (category_picks scored). durationCategory (snd p) = Some cat"
proof -
  define b where "b = sort_by by_final (filter (\<lambda>c. durationCategory (snd c) = Some cat) scored)"
  have "x \<in> set b" using assms by (simp add: b_def set_sort_by)
  then obtain h t where ht: "b = h # t" by (cases b) auto
  then have "h \<in> set b" by simp
  then have hc: "durationCategory (snd h) = Some cat" by (simp add: b_def set_sort_by)
  have "h \<in> set (category_picks scored)"
    unfolding category_picks_member using assms(3) ht b_def by metis
  with hc show ?thesis by blast
qed

lemma top_up_shape:
  "\<exists>extra. top_up sel rem = sel @ extra
     \<and> set extra \<subseteq> set rem
     \<and> length (sel @ extra) \<le> max 5 (length sel)
     \<and> (\<forall>j < length extra. \<forall>i < length sel + j.
           \<not> overlaps_40 (snd (extra ! j)) (snd ((sel @ extra) ! i)))"
proof (induction rem arbitrary: sel)
  case Nil
  show ?case by simp
next
  case (Cons n rem)
  show ?case
  proof (cases "length sel < 5")
    case False
    then show ?thesis by simp
  next
    case True
    show ?thesis
    proof (cases "list_ex (\<lambda>e. overlaps_40 (snd n) (snd e)) sel")
      case True
      from Cons.IH [of sel] obtain extra where "top_up sel rem = sel @ extra"
        "set extra \<subseteq> set rem" "length (sel @ extra) \<le> max 5 (length sel)"
        "\<forall>j < length extra. \<forall>i < length sel + j.
           \<not> overlaps_40 (snd (extra ! j)) (snd ((sel @ extra) ! i))" by blast
      with True \<open>length sel < 5\<close> show ?thesis by (intro exI [of _ extra]) auto
    next
      case False
      then have no: "\<forall>e \<in> set sel. \<not> overlaps_40 (snd n) (snd e)" by (simp add: list_ex_iff)
      from Cons.IH [of "sel @ [n]"] obtain extra where e: "top_up (sel @ [n]) rem = (sel @ [n]) @ extra"
        "set extra \<subseteq> set rem" "length ((sel @ [n]) @ extra) \<le> max 5 (length (sel @ [n]))"
        "\<forall>j < length extra. \<forall>i < length (sel @ [n]) + j.
           \<not> overlaps_40 (snd (extra ! j)) (snd (((sel @ [n]) @ extra) ! i))" by blast
      have "\<not> overlaps_40 (snd ((n # extra) ! j)) (snd ((sel @ n # extra) ! i))"
        if "j < length (n # extra)" "i < length sel + j" for i j
      proof (cases j)
        case 0
        with that have "i < length sel" by simp
        then have "(sel @ n # extra) ! i \<in> set sel" by (simp add: nth_append)
        with no 0 show ?thesis by simp
      next
        case (Suc j')
        with that have "j' < length extra" "i < length (sel @ [n]) + j'" by simp_all
        with e(4) have "\<not> overlaps_40 (snd (extra ! j')) (snd (((sel @ [n]) @ extra) ! i))"
          by blast
        then show ?thesis using Suc by simp
      qed
      with e False \<open>length sel < 5\<close> show ?thesis
        by (intro exI [of _ "n # extra"]) auto
    qed
  qed
qed

lemma fallback_selected_shape:
  "\<exists>extra. fallback_selected scored = category_picks scored @ extra
     \<and> set extra \<subseteq> set scored
     \<and> length (category_picks scored @ extra) \<le> 5
     \<and> (\<forall>j < length extra. \<forall>i < length (category_picks scored) + j.
           \<not> overlaps_40 (snd (extra ! j)) (snd ((category_picks scored @ extra) ! i)))"
proof -
  let ?p = "category_picks scored"
  let ?rem = "sort_by by_final (filter (\<lambda>c. c \<notin> set ?p) scored)"
  have l: "length ?p \<le> 4" by (rule length_category_picks)
  then have eq: "fallback_selected scored = top_up ?p ?rem"
    by (simp add: fallback_selected_def Let_def)
  from top_up_shape [of ?p ?rem] obtain extra where e: "top_up ?p ?rem = ?p @ extra"
    "set extra \<subseteq> set ?rem" "length (?p @ extra) \<le> max 5 (length ?p)"
    "\<forall>j < length extra. \<forall>i < length ?p + j.
       \<not> overlaps_40 (snd (extra ! j)) (snd ((?p @ extra) ! i))" by blast
  have "set extra \<subseteq> set scored" using e(2) by (auto simp: set_sort_by)
  moreover have "length (?p @ extra) \<le> 5" using e(3) l by simp
  ultimately show ?thesis using eq e(1) e(4) by (intro exI [of _ extra]) simp
qed

lemma single_of_mset:
  assumes "mset (map f xs) = {#d#}"
  shows "\<exists>x. xs = [x] \<and> f x = d"
proof -
  from assms have "size (mset (map f xs)) = 1" by simp
  then have "length xs = 1" by simp
  then obtain x where "xs = [x]" by (cases xs) auto
  with assms show ?thesis by simp
qed

lemma sort_by_single: "sort_by cmp [x] = [x]"
  by (simp add: sort_by_def)

lemma one_per_bucket:
  assumes m: "mset (map duration pool) = {#8, 15, 25, 40#}"
  shows "map durationCategory (fallback_picks pool) = map Some categories
         \<and> map duration (fallback_picks pool) = [8, 15, 25, 40]
         \<and> fallbackClipSelection pool = fallback_picks pool"
proof -
  let ?S = "scoredClips pool"
  let ?f = "\<lambda>x. duration (snd x)"
  have ds: "map ?f ?S = map duration pool"
  proof -
    have "map ?f ?S = map duration (map snd ?S)" by simp
    also have "\<dots> = map duration (map score_for_fallback pool)"
      by (simp add: scoredClips_def)
    finally show ?thesis by (simp add: comp_def)
  qed
  have dc: "durationCategory (snd x) = Some (category_of (?f x))" if "x \<in> set ?S" for x
    using scoredClips_member [OF that] by auto
  have bucket: "\<exists>x. sort_by by_final (filter (\<lambda>c. durationCategory (snd c) = Some cat) ?S) = [x]
                   \<and> ?f x = d \<and> x \<in> set ?S"
    if "filter_mset (\<lambda>d. category_of d = cat) {#8, 15, 25, 40#} = {#d#}" for cat d
  proof -
    let ?F = "filter (\<lambda>c. durationCategory (snd c) = Some cat) ?S"
    have "?F = filter (\<lambda>x. category_of (?f x) = cat) ?S"
      by (rule filter_cong) (auto simp: dc)
    then have "map ?f ?F = filter (\<lambda>d. category_of d = cat) (map ?f ?S)"
      by (simp add: filter_map comp_def)
    then have "mset (map ?f ?F) = filter_mset (\<lambda>d. category_of d = cat) (mset (map duration pool))"
      by (simp add: ds del: mset_map)
    then have "mset (map ?f ?F) = {#d#}" using that by (simp add: m del: mset_map)
    from single_of_mset [OF this] obtain x where x: "?F = [x]" "?f x = d" by blast
    then have "x \<in> set ?F" by simp
    then have "x \<in> set ?S" by simp
    with x show ?thesis by (simp add: sort_by_single)
  qed
  obtain x1 where x1: "sort_by by_final (filter (\<lambda>c. durationCategory (snd c) = Some ''very_short'') ?S) = [x1]"
    "?f x1 = 8" "x1 \<in> set ?S"
    using bucket [of "''very_short''" 8] by (auto simp: category_of_def)
  obtain x2 where x2: "sort_by by_final (filter (\<lambda>c. durationCategory (snd c) = Some ''short'') ?S) = [x2]"
    "?f x2 = 15" "x2 \<in> set ?S"
    using bucket [of "''short''" 15] by (auto simp: category_of_def)
  obtain x3 where x3: "sort_by by_final (filter (\<lambda>c. durationCategory (snd c) = Some ''medium'') ?S) = [x3]"
    "?f x3 = 25" "x3 \<in> set ?S"
    using bucket [of "''medium''" 25] by (auto simp: category_of_def)
  obtain x4 where x4: "sort_by by_final (filter (\<lambda>c. durationCategory (snd c) = Some ''long'') ?S) = [x4]"
    "?f x4 = 40" "x4 \<in> set ?S"
    using bucket [of "''long''" 40] by (auto simp: category_of_def)
  have picks: "category_picks ?S = [x1, x2, x3, x4]"
    by (simp add: category_picks_def clipsByDuration_def categories_def x1 x2 x3 x4)
  have cats: "map durationCategory (fallback_picks pool) = map Some categories"
    using dc [OF x1(3)] dc [OF x2(3)] dc [OF x3(3)] dc [OF x4(3)] x1(2) x2(2) x3(2) x4(2)
    by (simp add: fallback_picks_def picks categories_def category_of_def)
  have durs: "map duration (fallback_picks pool) = [8, 15, 25, 40]"
    using x1(2) x2(2) x3(2) x4(2) by (simp add: fallback_picks_def picks)
  have "x \<in> set (category_picks ?S)" if "x \<in> set ?S" for x
  proof -
    have "category_of (?f x) \<in> set categories" by (rule category_of_known)
    from category_picks_cover [OF that dc [OF that] this]
    obtain p where p: "p \<in> set (category_picks ?S)"
      "durationCategory (snd p) = Some (category_of (?f x))" by blast
    have "?f x \<in> set (map duration pool)" using that ds by (metis image_eqI set_map)
    then have "?f x \<in># {#8, 15, 25, 40#}" using m by (metis set_mset_mset)
    then consider "?f x = 8" | "?f x = 15" | "?f x = 25" | "?f x = 40" by auto
    then show ?thesis
    proof cases
      case 1
      then have "x \<in> set (sort_by by_final (filter (\<lambda>c. durationCategory (snd c) = Some ''very_short'') ?S))"
        using that dc [OF that] by (simp add: set_sort_by category_of_def)
      then show ?thesis by (simp add: x1 picks)
    next
      case 2
      then have "x \<in> set (sort_by by_final (filter (\<lambda>c. durationCategory (snd c) = Some ''short'') ?S))"
        using that dc [OF that] by (simp add: set_sort_by category_of_def)
      then show ?thesis by (simp add: x2 picks)
    next
      case 3
      then have "x \<in> set (sort_by by_final (filter (\<lambda>c. durationCategory (snd c) = Some ''medium'') ?S))"
        using that dc [OF that] by (simp add: set_sort_by category_of_def)
      then show ?thesis by (simp add: x3 picks)
    next
      case 4
      then have "x \<in> set (sort_by by_final (filter (\<lambda>c. durationCategory (snd c) = Some ''long'') ?S))"
        using that dc [OF that] by (simp add: set_sort_by category_of_def)
      then show ?thesis by (simp add: x4 picks)
    qed
  qed
  then have "filter (\<lambda>c. c \<notin> set (category_picks ?S)) ?S = []"
    by (simp add: filter_empty_conv)
  then have "fallback_selected ?S = category_picks ?S"
    by (simp add: fallback_selected_def Let_def picks sort_by_def)
  moreover have "pool \<noteq> []" using m by auto
  ultimately have "fallbackClipSelection pool = fallback_picks pool"
    by (simp add: fallbackClipSelection_def fallback_picks_def)
  with cats durs show ?thesis by simp
qed

text \<open>
  Claim C6.  On a pool that is not empty the fallback puts every clip in one of the four
  duration categories, returns a clip of every category that has one, returns at most
  five clips, starts with the top clip of every category, and every clip after those does
  not overlap a clip before it by more than 40% of the shorter one.  With four candidates
  of 8, 15, 25 and 40 seconds the selection before the top-up has one clip per category,
  and nothing is added.
\<close>

theorem fallback_selection:
  assumes "pool \<noteq> []"
  shows "(\<forall>s \<in> set (fallbackClipSelection pool).
            durationCategory s = Some (category_of (duration s)))
       \<and> (\<forall>c \<in> set pool. \<exists>s \<in> set (fallbackClipSelection pool).
            durationCategory s = Some (category_of (duration c)))
       \<and> length (fallbackClipSelection pool) \<le> 5
       \<and> take (length (fallback_picks pool)) (fallbackClipSelection pool) = fallback_picks pool
       \<and> (\<forall>j. length (fallback_picks pool) \<le> j \<and> j < length (fallbackClipSelection pool)
              \<longrightarrow> (\<forall>i < j. \<not> overlaps_40 (fallbackClipSelection pool ! j)
                                              (fallbackClipSelection pool ! i)))
       \<and> (mset (map duration pool) = {#8, 15, 25, 40#}
            \<longrightarrow> map durationCategory (fallback_picks pool) = map Some categories
                \<and> map duration (fallback_picks pool) = [8, 15, 25, 40]
                \<and> fallbackClipSelection pool = fallback_picks pool)"
proof -
  let ?S = "scoredClips pool"
  let ?p = "category_picks ?S"
  from fallback_selected_shape [of ?S] obtain extra where e:
    "fallback_selected ?S = ?p @ extra" "set extra \<subseteq> set ?S" "length (?p @ extra) \<le> 5"
    "\<forall>j < length extra. \<forall>i < length ?p + j.
       \<not> overlaps_40 (snd (extra ! j)) (snd ((?p @ extra) ! i))" by blast
  have out: "fallbackClipSelection pool = map snd (?p @ extra)"
    using assms e(1) by (simp add: fallbackClipSelection_def)
  have sub: "set (?p @ extra) \<subseteq> set ?S" using e(2) set_category_picks [of ?S] by auto
  have 1: "\<forall>s \<in> set (fallbackClipSelection pool).
            durationCategory s = Some (category_of (duration s))"
  proof
    fix s assume "s \<in> set (fallbackClipSelection pool)"
    then obtain x where "x \<in> set ?S" "s = snd x" using out sub by auto
    with scoredClips_member [of x pool] show "durationCategory s = Some (category_of (duration s))"
      by auto
  qed
  have 2: "\<forall>c \<in> set pool. \<exists>s \<in> set (fallbackClipSelection pool).
            durationCategory s = Some (category_of (duration c))"
  proof
    fix c assume "c \<in> set pool"
    from scoredClips_of_pool [OF this] obtain i where "(i, score_for_fallback c) \<in> set ?S" ..
    from category_picks_cover [OF this, of "category_of (duration c)"]
    obtain p where "p \<in> set ?p" "durationCategory (snd p) = Some (category_of (duration c))"
      by (auto simp: category_of_known)
    then show "\<exists>s \<in> set (fallbackClipSelection pool).
                 durationCategory s = Some (category_of (duration c))"
      unfolding out by (intro bexI [of _ "snd p"]) auto
  qed
  have 3: "length (fallbackClipSelection pool) \<le> 5" using e(3) by (simp add: out)
  have 4: "take (length (fallback_picks pool)) (fallbackClipSelection pool) = fallback_picks pool"
    by (simp add: out fallback_picks_def)
  have 5: "\<forall>j. length (fallback_picks pool) \<le> j \<and> j < length (fallbackClipSelection pool)
              \<longrightarrow> (\<forall>i < j. \<not> overlaps_40 (fallbackClipSelection pool ! j)
                                              (fallbackClipSelection pool ! i))"
  proof (intro allI impI)
    fix j i
    assume j: "length (fallback_picks pool) \<le> j \<and> j < length (fallbackClipSelection pool)"
      and i: "i < j"
    define j' where "j' = j - length ?p"
    have j': "j = length ?p + j'" "j' < length extra"
      using j by (auto simp: j'_def out fallback_picks_def)
    have "\<not> overlaps_40 (snd (extra ! j')) (snd ((?p @ extra) ! i))"
      using e(4) j' i by auto
    moreover have "fallbackClipSelection pool ! j = snd (extra ! j')"
      using j j' by (simp add: out nth_append)
    moreover have "fallbackClipSelection pool ! i = snd ((?p @ extra) ! i)"
    proof -
      have "i < length (?p @ extra)" using j i by (simp add: out)
      then show ?thesis unfolding out by (rule nth_map)
    qed
    ultimately show "\<not> overlaps_40 (fallbackClipSelection pool ! j)
                                      (fallbackClipSelection pool ! i)" by simp
  qed
  from 1 2 3 4 5 one_per_bucket [of pool] show ?thesis by blast
qed

theorem fallback_selection_witness:
  "fallback_pool \<noteq> []
   \<and> length (fallback_picks fallback_pool) \<le> 2 \<and> 2 < length (fallbackClipSelection fallback_pool)
   \<and> \<not> overlaps_40 (fallbackClipSelection fallback_pool ! 2) (fallbackClipSelection fallback_pool ! 1)
   \<and> length (fallbackClipSelection fallback_pool) \<le> 5
   \<and> mset (map duration four_buckets_pool) = {#8, 15, 25, 40#}
   \<and> map durationCategory (fallback_picks four_buckets_pool) = map Some categories
   \<and> fallbackClipSelection four_buckets_pool = fallback_picks four_buckets_pool"
proof -
  have n: "fallback_pool \<noteq> []" "four_buckets_pool \<noteq> []"
    by (simp_all add: fallback_pool_def four_buckets_pool_def)
  have j: "length (fallback_picks fallback_pool) \<le> 2 \<and> 2 < length (fallbackClipSelection fallback_pool)"
    by code_simp
  have m: "mset (map duration four_buckets_pool) = {#8, 15, 25, 40#}"
    by (simp add: four_buckets_pool_def timed_clip_def new_clip_def)
  from fallback_selection [OF n(1)] j
  have "\<not> overlaps_40 (fallbackClipSelection fallback_pool ! 2) (fallbackClipSelection fallback_pool ! 1)"
    "length (fallbackClipSelection fallback_pool) \<le> 5"
    by (auto simp del: One_nat_def)
  moreover from fallback_selection [OF n(2)] m
  have "map durationCategory (fallback_picks four_buckets_pool) = map Some categories"
    "fallbackClipSelection four_buckets_pool = fallback_picks four_buckets_pool" by blast+
  ultimately show ?thesis using n j m by blast
qed


section \<open>The selection step\<close>

lemma fallback_empty [simp]: "fallbackClipSelection [] = []"
  by (simp add: fallbackClipSelection_def)

lemma selection_of_None:
  "\<not> in_pool (length pool) (parseInt (cm_number m)) \<Longrightarrow> selection_of pool reply m = None"
  by (auto simp: selection_of_def Let_def in_pool_def)

lemma selectedClips_empty:
  assumes "\<forall>m \<in> set (selectedClipMatches reply). \<not> in_pool (length pool) (parseInt (cm_number m))"
  shows "selectedClips pool reply = []"
proof -
  have "List.map_filter f xs = []" if "\<forall>x \<in> set xs. f x = None"
    for f :: "clip_match \<Rightarrow> clip option" and xs
    using that by (induction xs) auto
  then show ?thesis using assms by (simp add: selectedClips_def selection_of_None)
qed

lemma uniqueIndices_empty:
  assumes "\<forall>m \<in> set (match_all False mentionRegex reply).
             \<not> in_pool (length pool) (mention_number (m_text m))"
  shows "uniqueIndices pool reply = []"
proof -
  have "filter (\<lambda>n. 1 \<le> n \<and> n - 1 < length pool)
          (map (\<lambda>m. mention_number (m_text m)) (match_all False mentionRegex reply)) = []"
    using assms by (auto simp: filter_empty_conv in_pool_def)
  then show ?thesis by (simp add: uniqueIndices_def unique_def)
qed

text \<open>
  Claim C4.  When the call of the language model throws, and when no entry found in its
  reply by the cascade has a clip number inside the pool (for the text path: nor has any
  mention), the selection step returns \<open>fallbackClipSelection\<close> of the very pool that
  was sent.  The step is a total function: every exception of the source is a branch that
  ends in the fallback.
\<close>

theorem fallback_on_failure:
  "select_fullText pool Threw = fallbackClipSelection pool
   \<and> select_utterances pool Threw = fallbackClipSelection pool
   \<and> ((\<forall>m \<in> set (selectedClipMatches reply).
          \<not> in_pool (length pool) (parseInt (cm_number m)))
        \<and> (\<forall>m \<in> set (match_all False mentionRegex reply).
             \<not> in_pool (length pool) (mention_number (m_text m)))
       \<longrightarrow> select_fullText pool (Reply reply) = fallbackClipSelection pool)
   \<and> ((\<forall>m \<in> set (selectedClipMatches reply).
          \<not> in_pool (length pool) (parseInt (cm_number m)))
       \<longrightarrow> select_utterances pool (Reply reply) = fallbackClipSelection pool)"
  by (auto simp: select_fullText_def select_utterances_def selectedClips_empty
        uniqueIndices_empty)

theorem fallback_on_failure_witness:
  "selectedClipMatches out_of_pool_reply \<noteq> []
   \<and> list_all (\<lambda>m. \<not> in_pool (length (numbered_pool 3)) (parseInt (cm_number m)))
        (selectedClipMatches out_of_pool_reply)
   \<and> select_fullText (numbered_pool 3) (Reply out_of_pool_reply)
        = fallbackClipSelection (numbered_pool 3)
   \<and> select_utterances (numbered_pool 3) (Reply out_of_pool_reply)
        = fallbackClipSelection (numbered_pool 3)
   \<and> select_fullText (numbered_pool 3) Threw = fallbackClipSelection (numbered_pool 3)"
proof -
  have 1: "selectedClipMatches out_of_pool_reply \<noteq> []" by code_simp
  have 2: "\<forall>m \<in> set (selectedClipMatches out_of_pool_reply).
        \<not> in_pool (length (numbered_pool 3)) (parseInt (cm_number m))" by code_simp
  have 3: "\<forall>m \<in> set (match_all False mentionRegex out_of_pool_reply).
        \<not> in_pool (length (numbered_pool 3)) (mention_number (m_text m))" by code_simp
  from fallback_on_failure [of "numbered_pool 3" out_of_pool_reply] 1 2 3
  show ?thesis unfolding list_all_iff by blast
qed

lemma viral_reason_nonempty: "viral_reason v \<noteq> []"
  by (simp add: viral_reason_def)

lemma fallback_member:
  assumes "s \<in> set (fallbackClipSelection pool)"
  shows "\<exists>c \<in> set pool. s = score_for_fallback c"
proof -
  from assms have ne: "pool \<noteq> []" by (auto simp: fallbackClipSelection_def)
  from fallback_selected_shape [of "scoredClips pool"] set_category_picks [of "scoredClips pool"]
  have "set (fallback_selected (scoredClips pool)) \<subseteq> set (scoredClips pool)" by auto
  with assms ne obtain x where "x \<in> set (scoredClips pool)" "s = snd x"
    by (auto simp: fallbackClipSelection_def)
  with scoredClips_member [of x pool] show ?thesis by auto
qed

lemma fallback_reason: "s \<in> set (fallbackClipSelection pool) \<Longrightarrow> truthy_str (reason s)"
  by (auto dest!: fallback_member simp: truthy_str_def viral_reason_nonempty)

lemma or_default_nonempty: "d \<noteq> [] \<Longrightarrow> or_default s d \<noteq> []"
  by (simp add: or_default_def)

lemma selection_of_Some:
  assumes "selection_of pool reply m = Some s"
  shows "in_pool (length pool) (parseInt (cm_number m))"
    and "ctext s = ctext (pool ! (parseInt (cm_number m) - 1))"
    and "reason s = Some (or_default (reason_of reply m)
                            (''Selected by AI (Clip '' @ show_nat (parseInt (cm_number m)) @ '')''))"
    and "has_reason_and_audience s"
  using assms
  by (auto simp: selection_of_def Let_def in_pool_def has_reason_and_audience_def truthy_str_def
        or_default_nonempty split: if_splits)

lemma selectedClips_member:
  "s \<in> set (selectedClips pool reply) \<Longrightarrow>
     \<exists>m \<in> set (selectedClipMatches reply). selection_of pool reply m = Some s"
  by (auto simp: selectedClips_def map_filter_member)

lemma set_unique: "set (unique xs) = set xs"
  by (simp add: unique_def)

lemma mentionedClips_member:
  assumes "s \<in> set (mentionedClips pool reply)"
  shows "\<exists>index < length pool.
           reason s = Some (''Mentioned by AI as Clip '' @ show_nat (index + 1))
           \<and> targetAudience s = targetAudience (pool ! index)"
proof -
  from assms obtain index where i: "index \<in> set (uniqueIndices pool reply)"
    and s: "s = (pool ! index)\<lparr>reason := Some (''Mentioned by AI as Clip '' @ show_nat (index + 1)),
                                aiSelected := Some True\<rparr>"
    by (auto simp: mentionedClips_def)
  from i have "index < length pool" by (auto simp: uniqueIndices_def set_unique)
  with s show ?thesis by auto
qed

text \<open>
  Claim C10, as amended.  Every selection returned by the selection step of either path
  or by the fallback has a reason that is not empty.  A selection made from an entry of
  the cascade also has a target audience that is not empty, and the reason
  \<open>Selected by AI (Clip n)\<close> when none was found in the reply.  A selection made from a
  mention has the reason \<open>Mentioned by AI as Clip n\<close> and the target audience of the pool
  clip, which is none for the clips of the generators.
\<close>

theorem selections_carry_reason:
  "(\<forall>s \<in> set (select_fullText pool llm). truthy_str (reason s))
   \<and> (\<forall>s \<in> set (select_utterances pool llm). truthy_str (reason s))
   \<and> (\<forall>s \<in> set (fallbackClipSelection pool). truthy_str (reason s))
   \<and> (\<forall>s \<in> set (selectedClips pool reply). has_reason_and_audience s)
   \<and> (\<forall>m s. selection_of pool reply m = Some s \<and> reason_of reply m = [] \<longrightarrow>
         reason s = Some (''Selected by AI (Clip '' @ show_nat (parseInt (cm_number m)) @ '')''))
   \<and> (\<forall>s \<in> set (mentionedClips pool reply). \<exists>index < length pool.
         reason s = Some (''Mentioned by AI as Clip '' @ show_nat (index + 1))
         \<and> targetAudience s = targetAudience (pool ! index))"
proof -
  have sel: "has_reason_and_audience s" if "s \<in> set (selectedClips pool r)" for s r
    using selectedClips_member [OF that] selection_of_Some(4) by blast
  have men: "truthy_str (reason s)" if "s \<in> set (mentionedClips pool r)" for s r
    using mentionedClips_member [OF that] by (auto simp: truthy_str_def)
  have 1: "\<forall>s \<in> set (select_fullText pool llm). truthy_str (reason s)"
    using sel men fallback_reason [of _ pool]
    by (auto simp: select_fullText_def has_reason_and_audience_def split: llm_result.splits if_splits)
  have 2: "\<forall>s \<in> set (select_utterances pool llm). truthy_str (reason s)"
    using sel fallback_reason [of _ pool]
    by (auto simp: select_utterances_def has_reason_and_audience_def split: llm_result.splits if_splits)
  have 5: "\<forall>m s. selection_of pool reply m = Some s \<and> reason_of reply m = [] \<longrightarrow>
         reason s = Some (''Selected by AI (Clip '' @ show_nat (parseInt (cm_number m)) @ '')'')"
    using selection_of_Some(3) by (auto simp: or_default_def)
  from 1 2 5 sel mentionedClips_member fallback_reason show ?thesis by blast
qed

theorem selections_carry_reason_witness:
  "select_fullText (numbered_pool 3) (Reply mention_reply) \<noteq> []
   \<and> truthy_str (reason (hd (select_fullText (numbered_pool 3) (Reply mention_reply))))
   \<and> selectedClips (numbered_pool 5) formatted_reply \<noteq> []
   \<and> has_reason_and_audience (hd (selectedClips (numbered_pool 5) formatted_reply))"
proof -
  have 1: "select_fullText (numbered_pool 3) (Reply mention_reply) \<noteq> []" by code_simp
  have 2: "selectedClips (numbered_pool 5) formatted_reply \<noteq> []" by code_simp
  from selections_carry_reason [of "numbered_pool 3" "Reply mention_reply"] 1
  have 3: "truthy_str (reason (hd (select_fullText (numbered_pool 3) (Reply mention_reply))))"
    by (meson hd_in_set)
  from selections_carry_reason [of "numbered_pool 5" _ formatted_reply] 2
  have 4: "has_reason_and_audience (hd (selectedClips (numbered_pool 5) formatted_reply))"
    by (meson hd_in_set)
  from 1 2 3 4 show ?thesis by blast
qed

text \<open>
  Claim C10 as stated fails for a selection recovered from a mention: it has a reason but
  no target audience.
\<close>

theorem mention_without_audience_counterexample:
  "\<not> list_all has_reason_and_audience (select_fullText (numbered_pool 3) (Reply mention_reply))"
  by code_simp

lemma selection_of_index:
  "selection_of pool reply m \<noteq> None \<longleftrightarrow> in_pool (length pool) (parseInt (cm_number m))"
  by (auto simp: selection_of_def Let_def in_pool_def)

lemma formatted_reply_selection:
  "map (\<lambda>s. (ctext s, reason s)) (selectedClips (numbered_pool 5) formatted_reply)
     = [(''Clip text 3'', Some ''great hook.'')]"
  by code_simp

text \<open>
  Claim C5.  The clip number is translated and checked as claimed
  (\<open>selection_of_index\<close>, \<open>selection_of_Some\<close>), and a single selection gets the text of its
  block (\<open>formatted_reply_selection\<close>).  With the selections 12 and 1 in this order the
  text \<open>SELECTED CLIP #: 1\<close> is first found inside \<open>SELECTED CLIP #: 12\<close>, and clip 1
  gets the reason of clip 12.
\<close>

theorem reason_of_other_selection:
  "map (\<lambda>s. (ctext s, reason s)) (selectedClips (numbered_pool 12) two_selections_reply)
     = [(''Clip text 12'', Some ''A''), (''Clip text 1'', Some ''A'')]"
  by code_simp


end
